theory Spec2Isabelle
  imports Complex_Main "HOL-Library.Multiset"
begin

section \<open>Values, cells and frames\<close>

text \<open>
  The program is one Streamlit script, \<^verbatim>\<open>app.py\<close>, run from top to bottom on every
  interaction. Its only state is \<^verbatim>\<open>st.session_state.df\<close>, a pandas DataFrame with the
  columns \<^verbatim>\<open>Date Time\<close> and \<^verbatim>\<open>Power\<close>.

  Python text is represented by its UTF-8 encoding (one \<^typ>\<open>char\<close> per byte), so a
  literal such as the em dash the metrics show for an empty table is three characters.
\<close>

datatype error = KeyError | IndexError | ValueError | TypeError | LibraryError

text \<open>A Python float: a finite value (every finite float is a rational) or NaN.\<close>

datatype pyfloat = Fin rat | NaN

text \<open>
  What one cell of a DataFrame can hold: an integer, a float, text, \<^verbatim>\<open>None\<close>, and,
  after \<^verbatim>\<open>pd.to_datetime\<close>, a timestamp or \<^verbatim>\<open>NaT\<close>.
\<close>

datatype cell = IntC int | FloatC pyfloat | StrC string | NoneC | TimeC int | NaTC

text \<open>A DataFrame: its columns in order, each a name with its values.\<close>

type_synonym frame = "(string \<times> cell list) list"

definition DataFrame_columns :: "string list \<Rightarrow> frame" where
  "DataFrame_columns names = map (\<lambda>n. (n, [])) names"

definition columns :: "frame \<Rightarrow> string list" where
  "columns d = map fst d"

definition nrows :: "frame \<Rightarrow> nat" where
  "nrows d = (case d of [] \<Rightarrow> 0 | c # _ \<Rightarrow> length (snd c))"

text \<open>\<^verbatim>\<open>df.empty\<close>: no column or no row.\<close>

definition empty_frame :: "frame \<Rightarrow> bool" where
  "empty_frame d = (d = [] \<or> nrows d = 0)"

text \<open>\<^verbatim>\<open>df[name]\<close> raises \<^verbatim>\<open>KeyError\<close> for a missing column.\<close>

definition getitem :: "frame \<Rightarrow> string \<Rightarrow> error + cell list" where
  "getitem d name = (case map_of d name of None \<Rightarrow> Inl KeyError | Some c \<Rightarrow> Inr c)"

text \<open>\<^verbatim>\<open>series.iloc[-1]\<close> raises \<^verbatim>\<open>IndexError\<close> on an empty series.\<close>

definition iloc_last :: "cell list \<Rightarrow> error + cell" where
  "iloc_last c = (case c of [] \<Rightarrow> Inl IndexError | _ # _ \<Rightarrow> Inr (last c))"

text \<open>
  \<^verbatim>\<open>pd.concat([a, b], ignore_index=True)\<close>: the columns of \<open>a\<close>, then those of \<open>b\<close>
  that \<open>a\<close> lacks; a frame that lacks a column contributes NaN for each of its rows.
  Cells keep their values: the dtype a column gets is not modelled.
\<close>

definition column_or_nan :: "frame \<Rightarrow> string \<Rightarrow> cell list" where
  "column_or_nan d n =
     (case map_of d n of Some c \<Rightarrow> c | None \<Rightarrow> replicate (nrows d) (FloatC NaN))"

definition concat_frames :: "frame \<Rightarrow> frame \<Rightarrow> frame" where
  "concat_frames a b =
     map (\<lambda>n. (n, column_or_nan a n @ column_or_nan b n))
       (map fst a @ filter (\<lambda>n. n \<notin> set (map fst a)) (map fst b))"

text \<open>
  The Table of the specification: exactly the two columns, in this order, of one length.
  Its rows are the pairs of a timestamp cell and a power cell.
\<close>

definition is_table :: "frame \<Rightarrow> bool" where
  "is_table d =
     (case d of
        [(n1, c1), (n2, c2)] \<Rightarrow> n1 = ''Date Time'' \<and> n2 = ''Power'' \<and> length c1 = length c2
      | _ \<Rightarrow> False)"

definition rows :: "frame \<Rightarrow> (cell \<times> cell) list" where
  "rows d = zip (column_or_nan d ''Date Time'') (column_or_nan d ''Power'')"

section \<open>The clock and \<^verbatim>\<open>strftime\<close>\<close>

record datetime =
  year :: nat
  month :: nat
  day :: nat
  hour :: nat
  minute :: nat
  second :: nat

definition digit_char :: "nat \<Rightarrow> char" where
  "digit_char d = ''0123456789'' ! (d mod 10)"

fun nat_str :: "nat \<Rightarrow> string" where
  "nat_str n = (if n < 10 then [digit_char n] else nat_str (n div 10) @ [digit_char (n mod 10)])"

declare nat_str.simps [simp del]

definition zero_pad :: "nat \<Rightarrow> nat \<Rightarrow> string" where
  "zero_pad w n = replicate (w - length (nat_str n)) (CHR ''0'') @ nat_str n"

text \<open>\<^verbatim>\<open>strftime("%Y-%m-%d %H:%M:%S")\<close>.\<close>

definition strftime :: "datetime \<Rightarrow> string" where
  "strftime t =
     zero_pad 4 (year t) @ ''-'' @ zero_pad 2 (month t) @ ''-'' @ zero_pad 2 (day t) @ '' '' @
     zero_pad 2 (hour t) @ '':'' @ zero_pad 2 (minute t) @ '':'' @ zero_pad 2 (second t)"

text \<open>A date and time the wall clock can show.\<close>

definition valid_datetime :: "datetime \<Rightarrow> bool" where
  "valid_datetime t =
     (1000 \<le> year t \<and> year t \<le> 9999 \<and> 1 \<le> month t \<and> month t \<le> 12 \<and>
      1 \<le> day t \<and> day t \<le> 31 \<and> hour t < 24 \<and> minute t < 60 \<and> second t < 60)"

definition is_digit :: "char \<Rightarrow> bool" where
  "is_digit c = (c \<in> set ''0123456789'')"

text \<open>The shape \<^verbatim>\<open>YYYY-MM-DD HH:MM:SS\<close>: nineteen characters, digits between the separators.\<close>

definition is_ymd_hms :: "string \<Rightarrow> bool" where
  "is_ymd_hms s =
     (length s = 19 \<and>
      list_all is_digit (take 4 s) \<and> s ! 4 = CHR ''-'' \<and>
      list_all is_digit (take 2 (drop 5 s)) \<and> s ! 7 = CHR ''-'' \<and>
      list_all is_digit (take 2 (drop 8 s)) \<and> s ! 10 = CHR '' '' \<and>
      list_all is_digit (take 2 (drop 11 s)) \<and> s ! 13 = CHR '':'' \<and>
      list_all is_digit (take 2 (drop 14 s)) \<and> s ! 16 = CHR '':'' \<and>
      list_all is_digit (take 2 (drop 17 s)))"

section \<open>The session: the Table Store\<close>

text \<open>
  DataFrames are objects: \<open>objects\<close> maps an address to the frame stored there, \<open>fresh\<close>
  is the next unused address, and \<open>state_df\<close> is the address that
  \<^verbatim>\<open>st.session_state.df\<close> holds. The Table Store is the object it points to.
\<close>

record session =
  objects :: "nat \<Rightarrow> frame"
  fresh :: nat
  state_df :: nat

definition table :: "session \<Rightarrow> frame" where
  "table s = objects s (state_df s)"

definition wf_session :: "session \<Rightarrow> bool" where
  "wf_session s = (state_df s < fresh s)"

text \<open>
  The Table Store is the same in \<open>s'\<close> as in \<open>s\<close>: \<^verbatim>\<open>st.session_state.df\<close> is bound to
  the same object, and the object holds the same frame.
\<close>

definition store_kept :: "session \<Rightarrow> session \<Rightarrow> bool" where
  "store_kept s s' = (state_df s' = state_df s \<and> objects s' (state_df s) = objects s (state_df s))"

text \<open>A new DataFrame object.\<close>

definition new_object :: "frame \<Rightarrow> session \<Rightarrow> nat \<times> session" where
  "new_object f s = (fresh s, s\<lparr>objects := (objects s)(fresh s := f), fresh := Suc (fresh s)\<rparr>)"

text \<open>\<^verbatim>\<open>st.session_state.df = <a new frame>\<close>.\<close>

definition assign_df :: "frame \<Rightarrow> session \<Rightarrow> session" where
  "assign_df f s = (let (a, s') = new_object f s in s'\<lparr>state_df := a\<rparr>)"

text \<open>Lines 14-15: the first run of a session creates the empty table.\<close>

definition initial_session :: session where
  "initial_session =
     assign_df (DataFrame_columns [''Date Time'', ''Power''])
       \<lparr>objects = (\<lambda>_. []), fresh = 0, state_df = 0\<rparr>"

section \<open>Ingestion, clear and the editor (tab 1)\<close>

text \<open>
  Lines 84-96. \<open>clock\<close> is what \<^verbatim>\<open>datetime.now()\<close> returns and \<open>power_value\<close> the
  integer of the number input.
\<close>

definition on_add_clicked :: "datetime \<Rightarrow> int \<Rightarrow> session \<Rightarrow> session" where
  "on_add_clicked clock power_value s =
     (let now = strftime clock;
          new_row = [(''Date Time'', [StrC now]), (''Power'', [IntC power_value])]
      in assign_df (concat_frames (table s) new_row) s)"

text \<open>Lines 98-100.\<close>

definition on_clear_clicked :: "session \<Rightarrow> session" where
  "on_clear_clicked s = assign_df (DataFrame_columns [''Date Time'', ''Power'']) s"

text \<open>Lines 105-111: the frame the editor widget returns replaces the store.\<close>

definition data_editor_writeback :: "frame \<Rightarrow> session \<Rightarrow> session" where
  "data_editor_writeback edited_df s = assign_df edited_df s"

section \<open>Library calls taken as parameters\<close>

text \<open>
  The script calls pandas, numpy and plotly. What these calls compute from floating-point
  arithmetic, from free-form date parsing, from the sorting routine and from the host
  platform is not computed here: each definition takes the library calls it makes as parameters,
  and the run of the whole script takes them together, as this record.
  \<^item> \<open>to_datetime\<close>: \<^verbatim>\<open>pd.to_datetime(series)\<close> with its default \<^verbatim>\<open>errors="raise"\<close>: it
    raises, or returns one timestamp (\<open>None\<close> is \<^verbatim>\<open>NaT\<close>) for each cell;
  \<^item> \<open>Timestamp_str\<close>: \<^verbatim>\<open>str\<close> of a timestamp;
  \<^item> \<open>Series_mean\<close> and \<open>round2\<close>: \<^verbatim>\<open>series.mean()\<close> and \<^verbatim>\<open>round(x, 2)\<close>;
  \<^item> \<open>argsort\<close>: numpy's \<^verbatim>\<open>argsort(kind="quicksort")\<close> on the values of a column that
    are not missing (it raises when two of them cannot be compared);
  \<^item> \<open>float_repr\<close>: the text of a finite float;
  \<^item> \<open>px_raises\<close>: whether plotly express raises for a chart type and a frame;
  \<^item> \<open>linesep\<close>: \<^verbatim>\<open>os.linesep\<close>, the line terminator \<^verbatim>\<open>to_csv\<close> uses by default.
\<close>

datatype chart_kind = Line | Scatter | Bar

record library =
  to_datetime :: "cell list \<Rightarrow> error + int option list"
  Timestamp_str :: "int \<Rightarrow> string"
  Series_mean :: "cell list \<Rightarrow> error + pyfloat"
  round2 :: "pyfloat \<Rightarrow> pyfloat"
  argsort :: "cell list \<Rightarrow> error + nat list"
  float_repr :: "rat \<Rightarrow> string"
  px_raises :: "chart_kind \<Rightarrow> frame \<Rightarrow> error option"
  linesep :: string

text \<open>Sequencing of calls that can raise: the first exception ends the computation.\<close>

definition then_do :: "error + 'a \<Rightarrow> ('a \<Rightarrow> error + 'b) \<Rightarrow> error + 'b" where
  "then_do r f = (case r of Inl e \<Rightarrow> Inl e | Inr x \<Rightarrow> f x)"

section \<open>Python's \<^verbatim>\<open>int()\<close>\<close>

text \<open>
  \<^verbatim>\<open>int(text)\<close>: surrounding whitespace is dropped, a sign may follow, then decimal
  digits, with single underscores allowed between digits; anything else raises
  \<^verbatim>\<open>ValueError\<close>. Only ASCII digits and whitespace are recognised here.
\<close>

definition is_space :: "char \<Rightarrow> bool" where
  "is_space c = (c \<in> set [CHR 0x09, CHR 0x0A, CHR 0x0B, CHR 0x0C, CHR 0x0D, CHR 0x20])"

definition digit_val :: "char \<Rightarrow> nat" where
  "digit_val c = of_char c - 48"

fun digits_value :: "nat \<Rightarrow> string \<Rightarrow> nat option" where
  "digits_value acc [] = Some acc"
| "digits_value acc (c # cs) =
     (if is_digit c then digits_value (10 * acc + digit_val c) cs
      else if c = CHR ''_'' then
        (case cs of [] \<Rightarrow> None | d # _ \<Rightarrow> if is_digit d then digits_value acc cs else None)
      else None)"

definition strip :: "string \<Rightarrow> string" where
  "strip s = rev (dropWhile is_space (rev (dropWhile is_space s)))"

definition int_of_str :: "string \<Rightarrow> error + int" where
  "int_of_str s =
     (let t = strip s;
          neg = (case t of [] \<Rightarrow> False | c # _ \<Rightarrow> c = CHR ''-'');
          u = (case t of [] \<Rightarrow> [] | c # r \<Rightarrow> if c = CHR ''-'' \<or> c = CHR ''+'' then r else t)
      in case u of
           [] \<Rightarrow> Inl ValueError
         | c # _ \<Rightarrow>
             if is_digit c then
               (case digits_value 0 u of
                  None \<Rightarrow> Inl ValueError
                | Some n \<Rightarrow> Inr (if neg then - int n else int n))
             else Inl ValueError)"

text \<open>\<^verbatim>\<open>int(x)\<close> of a finite float drops the fraction: it rounds toward zero.\<close>

definition py_trunc :: "rat \<Rightarrow> int" where
  "py_trunc q = (if 0 \<le> q then \<lfloor>q\<rfloor> else \<lceil>q\<rceil>)"

fun py_int :: "cell \<Rightarrow> error + int" where
  "py_int (IntC n) = Inr n"
| "py_int (FloatC (Fin q)) = Inr (py_trunc q)"
| "py_int (FloatC NaN) = Inl ValueError"
| "py_int (StrC s) = int_of_str s"
| "py_int NoneC = Inl TypeError"
| "py_int (TimeC t) = Inl TypeError"
| "py_int NaTC = Inl TypeError"

section \<open>The top metrics (lines 30-52)\<close>

text \<open>What \<^verbatim>\<open>st.metric\<close> is given to show.\<close>

datatype shown = VInt int | VFloat pyfloat | VStr string

text \<open>The em dash, U+2014, shown when there is no data.\<close>

definition no_data :: string where
  "no_data = [CHR 0xE2, CHR 0x80, CHR 0x94]"

text \<open>
  The four metrics of one run. \<open>start_time\<close> is \<open>None\<close> when the script calls
  \<^verbatim>\<open>st.metric("Start time", ...)\<close> on no path.
\<close>

record metrics =
  total_rows :: nat
  latest_power :: shown
  avg_power :: shown
  start_time :: "shown option"

text \<open>Line 39.\<close>

definition latest_power_metric :: "frame \<Rightarrow> error + shown" where
  "latest_power_metric d =
     (if \<not> empty_frame d then
        then_do (getitem d ''Power'') (\<lambda>c.
        then_do (iloc_last c) (\<lambda>x.
        then_do (py_int x) (\<lambda>n. Inr (VInt n))))
      else Inr (VStr no_data))"

text \<open>Line 43.\<close>

definition avg_power_metric ::
  "(cell list \<Rightarrow> error + pyfloat) \<Rightarrow> (pyfloat \<Rightarrow> pyfloat) \<Rightarrow> frame \<Rightarrow> error + shown" where
  "avg_power_metric mean rnd d =
     (if \<not> empty_frame d then
        then_do (getitem d ''Power'') (\<lambda>c.
        then_do (mean c) (\<lambda>m. Inr (VFloat (rnd m))))
      else Inr (VStr no_data))"

text \<open>\<^verbatim>\<open>series.min()\<close> of timestamps skips \<^verbatim>\<open>NaT\<close>; with nothing left it is \<^verbatim>\<open>NaT\<close>.\<close>

definition series_min :: "int option list \<Rightarrow> int option" where
  "series_min ts = (case List.map_filter id ts of [] \<Rightarrow> None | x # xs \<Rightarrow> Some (fold min xs x))"

definition str_timestamp :: "(int \<Rightarrow> string) \<Rightarrow> int option \<Rightarrow> string" where
  "str_timestamp show_ts t = (case t of None \<Rightarrow> ''NaT'' | Some x \<Rightarrow> show_ts x)"

text \<open>Lines 46-52: any exception raised inside the \<^verbatim>\<open>try\<close> shows \<^verbatim>\<open>Invalid Date\<close>.\<close>

definition start_time_metric ::
  "(cell list \<Rightarrow> error + int option list) \<Rightarrow> (int \<Rightarrow> string) \<Rightarrow> frame \<Rightarrow> shown option" where
  "start_time_metric parse show_ts d =
     (if \<not> empty_frame d then
        (case then_do (getitem d ''Date Time'') parse of
           Inr ts \<Rightarrow> Some (VStr (str_timestamp show_ts (series_min ts)))
         | Inl e \<Rightarrow> Some (VStr ''Invalid Date''))
      else None)"

text \<open>
  The block reads the store through the alias \<^verbatim>\<open>df = st.session_state.df\<close>. An
  exception of line 39 or 43 is not caught: it ends the run.
\<close>

definition top_metrics ::
  "(cell list \<Rightarrow> error + int option list) \<Rightarrow> (int \<Rightarrow> string) \<Rightarrow>
   (cell list \<Rightarrow> error + pyfloat) \<Rightarrow> (pyfloat \<Rightarrow> pyfloat) \<Rightarrow>
   session \<Rightarrow> (error + metrics) \<times> session" where
  "top_metrics parse show_ts mean rnd s =
     (let d = objects s (state_df s) in
      (then_do (latest_power_metric d) (\<lambda>lp.
       then_do (avg_power_metric mean rnd d) (\<lambda>ap.
         Inr \<lparr>total_rows = nrows d, latest_power = lp, avg_power = ap,
              start_time = start_time_metric parse show_ts d\<rparr>)), s))"

section \<open>The widgets and tab 1 (lines 61-111)\<close>

text \<open>
  What the widgets return in one run. \<open>data_editor\<close> is the editor widget: given the
  frame it is shown, it returns the frame with the user's edits.
\<close>

record inputs =
  power_value :: int
  add_clicked :: bool
  clear_clicked :: bool
  data_editor :: "frame \<Rightarrow> frame"
  chart_type :: chart_kind
  show_markers :: bool
  sort_by_time :: bool
  file_name :: string

datatype message = Added string int | All_data_cleared

definition tab_input :: "datetime \<Rightarrow> inputs \<Rightarrow> session \<Rightarrow> message list \<times> session" where
  "tab_input clock inp s =
     (let (m1, s1) =
            (if add_clicked inp
             then ([Added (strftime clock) (power_value inp)],
                   on_add_clicked clock (power_value inp) s)
             else ([], s));
          (m2, s2) =
            (if clear_clicked inp then ([All_data_cleared], on_clear_clicked s1) else ([], s1));
          edited_df = data_editor inp (table s2)
      in (m1 @ m2, data_editor_writeback edited_df s2))"

section \<open>The chart (lines 113-174)\<close>

text \<open>\<^verbatim>\<open>df.copy()\<close>: a new object with the same contents.\<close>

definition copy_frame :: "nat \<Rightarrow> session \<Rightarrow> nat \<times> session" where
  "copy_frame a s = new_object (objects s a) s"

text \<open>\<^verbatim>\<open>d[name] = values\<close> on a frame: the column is replaced, or added last.\<close>

definition set_column :: "frame \<Rightarrow> string \<Rightarrow> cell list \<Rightarrow> frame" where
  "set_column d name c =
     (if name \<in> set (map fst d) then map (\<lambda>(n, v). if n = name then (n, c) else (n, v)) d
      else d @ [(name, c)])"

text \<open>The same assignment on the object at address \<open>a\<close>: it changes that object in place.\<close>

definition setitem :: "nat \<Rightarrow> string \<Rightarrow> cell list \<Rightarrow> session \<Rightarrow> session" where
  "setitem a name c s = s\<lparr>objects := (objects s)(a := set_column (objects s a) name c)\<rparr>"

definition timestamp_cell :: "int option \<Rightarrow> cell" where
  "timestamp_cell t = (case t of None \<Rightarrow> NaTC | Some x \<Rightarrow> TimeC x)"

definition isna :: "cell \<Rightarrow> bool" where
  "isna x = (x = NoneC \<or> x = NaTC \<or> x = FloatC NaN)"

text \<open>The rows at the positions \<open>ix\<close>, in that order.\<close>

definition take_rows :: "nat list \<Rightarrow> frame \<Rightarrow> frame" where
  "take_rows ix d = map (\<lambda>(n, c). (n, map (\<lambda>i. c ! i) ix)) d"

text \<open>
  \<^verbatim>\<open>d.sort_values(by)\<close> with its defaults (ascending, \<^verbatim>\<open>kind="quicksort"\<close>, missing
  values last): the positions of the values that are not missing are permuted as
  numpy's argsort, \<open>sorter\<close>, says, and the positions of the missing values follow in
  their order. A result of \<open>sorter\<close> that is not a list of positions is an error of
  the library.
\<close>

definition sort_values ::
  "(cell list \<Rightarrow> error + nat list) \<Rightarrow> string \<Rightarrow> frame \<Rightarrow> error + frame" where
  "sort_values sorter by d =
     then_do (getitem d by) (\<lambda>k.
       let idx = [0..<length k];
           non_nan_idx = filter (\<lambda>i. \<not> isna (k ! i)) idx;
           nan_idx = filter (\<lambda>i. isna (k ! i)) idx
       in then_do (sorter (map (\<lambda>i. k ! i) non_nan_idx)) (\<lambda>p.
            if list_all (\<lambda>j. j < length non_nan_idx) p
            then Inr (take_rows (map (\<lambda>j. non_nan_idx ! j) p @ nan_idx) d)
            else Inl LibraryError))"

record figure =
  kind :: chart_kind
  data :: frame
  markers :: "bool option"
  title :: string

datatype plotted = No_data_to_plot | Plotly_chart figure | Error_creating_chart error

text \<open>\<open>parse_warning\<close>: the warning of line 126 was shown.\<close>

record plot_view =
  parse_warning :: bool
  plotted :: plotted

text \<open>Lines 148-174: the figure plotly express is asked for, or the error it raises.\<close>

definition build_chart ::
  "(chart_kind \<Rightarrow> frame \<Rightarrow> error option) \<Rightarrow> inputs \<Rightarrow> frame \<Rightarrow> plotted" where
  "build_chart raises inp d =
     (case raises (chart_type inp) d of
        Some e \<Rightarrow> Error_creating_chart e
      | None \<Rightarrow>
          Plotly_chart \<lparr>kind = chart_type inp, data = d,
            markers = (if chart_type inp = Line then Some (show_markers inp) else None),
            title = ''Power vs Date Time''\<rparr>)"

text \<open>
  Lines 122-142, on the copy at address \<open>df_plot\<close>: the parsed column is assigned to the
  copy in place when parsing does not raise; sorting makes a new frame, and the copy
  stays the frame to plot when sorting raises.
\<close>

definition plot_frame ::
  "(cell list \<Rightarrow> error + int option list) \<Rightarrow> (cell list \<Rightarrow> error + nat list) \<Rightarrow>
   inputs \<Rightarrow> nat \<Rightarrow> session \<Rightarrow> (bool \<times> nat) \<times> session" where
  "plot_frame parse sorter inp df_plot s1 =
     (let (warned, s2) =
            (case then_do (getitem (objects s1 df_plot) ''Date Time'') parse of
               Inr ts \<Rightarrow> (False, setitem df_plot ''Date Time'' (map timestamp_cell ts) s1)
             | Inl e \<Rightarrow> (True, s1));
          (df_plot', s3) =
            (if sort_by_time inp then
               (case sort_values sorter ''Date Time'' (objects s2 df_plot) of
                  Inr f \<Rightarrow> new_object f s2
                | Inl e \<Rightarrow> (df_plot, s2))
             else (df_plot, s2))
      in ((warned, df_plot'), s3))"

definition tab_plot ::
  "(cell list \<Rightarrow> error + int option list) \<Rightarrow> (cell list \<Rightarrow> error + nat list) \<Rightarrow>
   (chart_kind \<Rightarrow> frame \<Rightarrow> error option) \<Rightarrow> inputs \<Rightarrow> session \<Rightarrow> plot_view \<times> session" where
  "tab_plot parse sorter raises inp s =
     (let (df_plot, s1) = copy_frame (state_df s) s in
      if empty_frame (objects s1 df_plot)
      then (\<lparr>parse_warning = False, plotted = No_data_to_plot\<rparr>, s1)
      else
        let ((warned, df_plot'), s3) = plot_frame parse sorter inp df_plot s1
        in (\<lparr>parse_warning = warned, plotted = build_chart raises inp (objects s3 df_plot')\<rparr>, s3))"

section \<open>The export (lines 176-198)\<close>

definition int_str :: "int \<Rightarrow> string" where
  "int_str n = (if n < 0 then ''-'' @ nat_str (nat (- n)) else nat_str (nat n))"

text \<open>The text of a cell in the CSV: missing values are empty (\<^verbatim>\<open>na_rep=""\<close>).\<close>

fun cell_str :: "(int \<Rightarrow> string) \<Rightarrow> (rat \<Rightarrow> string) \<Rightarrow> cell \<Rightarrow> string" where
  "cell_str show_ts repr (IntC n) = int_str n"
| "cell_str show_ts repr (FloatC (Fin q)) = repr q"
| "cell_str show_ts repr (FloatC NaN) = []"
| "cell_str show_ts repr (StrC s) = s"
| "cell_str show_ts repr NoneC = []"
| "cell_str show_ts repr (TimeC t) = show_ts t"
| "cell_str show_ts repr NaTC = []"

text \<open>
  The csv writer's minimal quoting: a field with a comma, a double quote, a carriage
  return, a line feed or a character of the line terminator is put in double quotes,
  its double quotes doubled; any other field is written as it is.
\<close>

definition csv_field :: "string \<Rightarrow> string \<Rightarrow> string" where
  "csv_field nl f =
     (if list_ex (\<lambda>c. c = CHR '','' \<or> c = CHR 0x22 \<or> c = CHR 0x0D \<or> c = CHR 0x0A \<or> c \<in> set nl) f
      then [CHR 0x22] @ concat (map (\<lambda>c. if c = CHR 0x22 then [c, c] else [c]) f) @ [CHR 0x22]
      else f)"

fun join_fields :: "string list \<Rightarrow> string" where
  "join_fields [] = []"
| "join_fields [f] = f"
| "join_fields (f # g # fs) = f @ '','' @ join_fields (g # fs)"

text \<open>One record; a record of one empty field is written as two double quotes.\<close>

definition csv_line :: "string \<Rightarrow> string list \<Rightarrow> string" where
  "csv_line nl fs =
     (if fs = [[]] then [CHR 0x22, CHR 0x22] else join_fields (map (csv_field nl) fs)) @ nl"

text \<open>\<^verbatim>\<open>d.to_csv(index=False)\<close>: the header, then the rows in order; no index column.\<close>

definition to_csv :: "(int \<Rightarrow> string) \<Rightarrow> (rat \<Rightarrow> string) \<Rightarrow> string \<Rightarrow> frame \<Rightarrow> string" where
  "to_csv show_ts repr nl d =
     csv_line nl (map fst d) @
     concat (map (\<lambda>i. csv_line nl (map (\<lambda>(n, c). cell_str show_ts repr (c ! i)) d)) [0..<nrows d])"

text \<open>\<^verbatim>\<open>text.encode("utf-8")\<close>: text is held as its UTF-8 bytes.\<close>

definition encode_utf8 :: "string \<Rightarrow> nat list" where
  "encode_utf8 s = map of_char s"

definition decode_utf8 :: "nat list \<Rightarrow> string" where
  "decode_utf8 bs = map char_of bs"

record download =
  csv_bytes :: "nat list"
  download_name :: string
  mime :: string

datatype export_view = Table_is_empty | Download_button download

definition tab_export ::
  "(int \<Rightarrow> string) \<Rightarrow> (rat \<Rightarrow> string) \<Rightarrow> string \<Rightarrow> inputs \<Rightarrow> session \<Rightarrow>
   export_view \<times> session" where
  "tab_export show_ts repr nl inp s =
     (if empty_frame (objects s (state_df s)) then (Table_is_empty, s)
      else (Download_button
              \<lparr>csv_bytes = encode_utf8 (to_csv show_ts repr nl (objects s (state_df s))),
               download_name = file_name inp, mime = ''text/csv''\<rparr>, s))"

section \<open>One run of the script\<close>

record page =
  page_metrics :: metrics
  page_messages :: "message list"
  page_plot :: plot_view
  page_export :: export_view

text \<open>
  The script from top to bottom. An exception that no \<^verbatim>\<open>try\<close> catches ends the run:
  nothing below the raising line is executed, and the session keeps its state.
\<close>

definition app_run :: "library \<Rightarrow> datetime \<Rightarrow> inputs \<Rightarrow> session \<Rightarrow> (error + page) \<times> session" where
  "app_run L clock inp s =
     (case top_metrics (to_datetime L) (Timestamp_str L) (Series_mean L) (round2 L) s of
        (Inl e, s0) \<Rightarrow> (Inl e, s0)
      | (Inr m, s0) \<Rightarrow>
          let (msgs, s1) = tab_input clock inp s0;
              (pv, s2) = tab_plot (to_datetime L) (argsort L) (px_raises L) inp s1;
              (ev, s3) = tab_export (Timestamp_str L) (float_repr L) (linesep L) inp s2
          in (Inr \<lparr>page_metrics = m, page_messages = msgs, page_plot = pv, page_export = ev\<rparr>, s3))"

section \<open>Reference instances of the library calls\<close>

text \<open>
  Concrete inputs need concrete library calls. \<open>to_datetime_ymd_hms\<close> is
  \<^verbatim>\<open>pd.to_datetime\<close> on a column of the texts the add handler writes: a cell of the
  shape \<^verbatim>\<open>YYYY-MM-DD HH:MM:SS\<close> that names a date and time is read, a missing cell is
  \<^verbatim>\<open>NaT\<close>, and any other cell makes the call raise (pandas knows further formats,
  which no concrete input below uses). A timestamp is held as the integer with the
  decimal digits \<^verbatim>\<open>YYYYMMDDHHMMSS\<close>, which orders timestamps as time does;
  \<open>str_ymd_hms\<close> prints it back.
\<close>

definition digits_nat :: "string \<Rightarrow> nat" where
  "digits_nat s = foldl (\<lambda>a c. 10 * a + digit_val c) 0 s"

definition days_in_month :: "nat \<Rightarrow> nat \<Rightarrow> nat" where
  "days_in_month y m =
     (if m = 2 then (if y mod 4 = 0 \<and> (y mod 100 \<noteq> 0 \<or> y mod 400 = 0) then 29 else 28)
      else if m = 4 \<or> m = 6 \<or> m = 9 \<or> m = 11 then 30 else 31)"

definition parse_ymd_hms :: "string \<Rightarrow> int option" where
  "parse_ymd_hms s =
     (if is_ymd_hms s then
        (let y = digits_nat (take 4 s); m = digits_nat (take 2 (drop 5 s));
             d = digits_nat (take 2 (drop 8 s)); h = digits_nat (take 2 (drop 11 s));
             mi = digits_nat (take 2 (drop 14 s)); sec = digits_nat (take 2 (drop 17 s))
         in if 1678 \<le> y \<and> y \<le> 2261 \<and> 1 \<le> m \<and> m \<le> 12 \<and> 1 \<le> d \<and> d \<le> days_in_month y m \<and>
               h < 24 \<and> mi < 60 \<and> sec < 60
            then Some (int (((((y * 100 + m) * 100 + d) * 100 + h) * 100 + mi) * 100 + sec))
            else None)
      else None)"

fun to_datetime_cell :: "cell \<Rightarrow> error + int option" where
  "to_datetime_cell (StrC s) = (case parse_ymd_hms s of None \<Rightarrow> Inl ValueError | Some t \<Rightarrow> Inr (Some t))"
| "to_datetime_cell NoneC = Inr None"
| "to_datetime_cell NaTC = Inr None"
| "to_datetime_cell (FloatC NaN) = Inr None"
| "to_datetime_cell (TimeC t) = Inr (Some t)"
| "to_datetime_cell (IntC n) = Inl ValueError"
| "to_datetime_cell (FloatC (Fin q)) = Inl ValueError"

fun to_datetime_ymd_hms :: "cell list \<Rightarrow> error + int option list" where
  "to_datetime_ymd_hms [] = Inr []"
| "to_datetime_ymd_hms (c # cs) =
     then_do (to_datetime_cell c) (\<lambda>t. then_do (to_datetime_ymd_hms cs) (\<lambda>ts. Inr (t # ts)))"

definition str_ymd_hms :: "int \<Rightarrow> string" where
  "str_ymd_hms t =
     (let n = nat t in
      zero_pad 4 (n div 10000000000) @ ''-'' @ zero_pad 2 (n div 100000000 mod 100) @ ''-'' @
      zero_pad 2 (n div 1000000 mod 100) @ '' '' @ zero_pad 2 (n div 10000 mod 100) @ '':'' @
      zero_pad 2 (n div 100 mod 100) @ '':'' @ zero_pad 2 (n mod 100))"

section \<open>numpy's argsort\<close>

text \<open>
  \<open>aquicksort\<close> is numpy's argsort for \<^verbatim>\<open>kind="quicksort"\<close>, the kind \<^verbatim>\<open>sort_values\<close>
  uses by default (\<^verbatim>\<open>npysort/quicksort.cpp\<close> and \<^verbatim>\<open>heapsort.cpp\<close> of numpy; it is not code
  of this repository). It sorts the index array \<open>a\<close>, at first \<open>0, 1, ...\<close>, by the keys
  \<open>v\<close>: an introsort, which partitions a segment of more than 17 positions around the
  median of its first, middle and last key, sorts shorter segments by insertion, and
  falls back to heapsort when the depth limit is used up. The C code keeps the pending
  segments on a stack, the larger one of each partition; here they are recursive calls
  in the same order.

  \<^verbatim>\<open>INTP_SWAP\<close>:
\<close>

definition swap :: "nat \<Rightarrow> nat \<Rightarrow> nat list \<Rightarrow> nat list" where
  "swap i j a = a[i := a ! j, j := a ! i]"

text \<open>
  The two scans of the partition loop, \<^verbatim>\<open>do ++pi; while (less(v[*pi], vp))\<close> and
  \<^verbatim>\<open>do --pj; while (less(vp, v[*pj]))\<close>, from the position after the increment or
  decrement. They stop at the ends of the array; in the C code the keys that the median
  of three leaves at the ends of the segment stop them before.
\<close>

function scan_up :: "('k \<Rightarrow> 'k \<Rightarrow> bool) \<Rightarrow> 'k list \<Rightarrow> nat list \<Rightarrow> 'k \<Rightarrow> nat \<Rightarrow> nat" where
  "scan_up lt v a vp i =
     (if i < length a \<and> lt (v ! (a ! i)) vp then scan_up lt v a vp (Suc i) else i)"
  by pat_completeness auto
termination
  by (relation "measure (\<lambda>(lt, v, a, vp, i). length a - i)") auto

function scan_down :: "('k \<Rightarrow> 'k \<Rightarrow> bool) \<Rightarrow> 'k list \<Rightarrow> nat list \<Rightarrow> 'k \<Rightarrow> nat \<Rightarrow> nat" where
  "scan_down lt v a vp j =
     (if 0 < j \<and> lt vp (v ! (a ! j)) then scan_down lt v a vp (j - 1) else j)"
  by pat_completeness auto
termination
  by (relation "measure (\<lambda>(lt, v, a, vp, j). j)") auto

declare scan_up.simps [simp del] scan_down.simps [simp del]

lemma scan_up_ge: "i \<le> scan_up lt v a vp i"
proof (induction lt v a vp i rule: scan_up.induct)
  case (1 lt v a vp i)
  show ?case
  proof (cases "i < length a \<and> lt (v ! (a ! i)) vp")
    case True
    with "1.IH" have "Suc i \<le> scan_up lt v a vp (Suc i)" by simp
    with True show ?thesis by (subst scan_up.simps) simp
  next
    case False
    then show ?thesis by (subst scan_up.simps) auto
  qed
qed

lemma scan_down_le: "scan_down lt v a vp j \<le> j"
proof (induction lt v a vp j rule: scan_down.induct)
  case (1 lt v a vp j)
  show ?case
  proof (cases "0 < j \<and> lt vp (v ! (a ! j))")
    case True
    with "1.IH" have "scan_down lt v a vp (j - 1) \<le> j - 1" by simp
    with True show ?thesis by (subst scan_down.simps) simp
  next
    case False
    then show ?thesis by (subst scan_down.simps) auto
  qed
qed

text \<open>The loop \<^verbatim>\<open>for (;;)\<close> of the partition.\<close>

function part_loop ::
  "('k \<Rightarrow> 'k \<Rightarrow> bool) \<Rightarrow> 'k list \<Rightarrow> 'k \<Rightarrow> nat list \<Rightarrow> nat \<Rightarrow> nat \<Rightarrow> nat list \<times> nat" where
  "part_loop lt v vp a ip jp =
     (if scan_down lt v a vp (jp - 1) \<le> scan_up lt v a vp (Suc ip)
      then (a, scan_up lt v a vp (Suc ip))
      else part_loop lt v vp
             (swap (scan_up lt v a vp (Suc ip)) (scan_down lt v a vp (jp - 1)) a)
             (scan_up lt v a vp (Suc ip)) (scan_down lt v a vp (jp - 1)))"
  by pat_completeness auto
termination
  apply (relation "measure (\<lambda>(lt, v, vp, a, ip, jp). jp - ip)")
   apply simp
  subgoal for lt v vp a ip jp
    using scan_up_ge [of "Suc ip" lt v a vp] scan_down_le [of lt v a vp "jp - 1"] by simp
  done

declare part_loop.simps [simp del]

text \<open>
  One partition of the segment from \<open>pl\<close> to \<open>pr\<close>: the array after it, and the position
  of the pivot.
\<close>

definition qs_partition ::
  "('k \<Rightarrow> 'k \<Rightarrow> bool) \<Rightarrow> 'k list \<Rightarrow> nat list \<Rightarrow> nat \<Rightarrow> nat \<Rightarrow> nat list \<times> nat" where
  "qs_partition lt v a pl pr =
     (let pm = pl + (pr - pl) div 2;
          a1 = (if lt (v ! (a ! pm)) (v ! (a ! pl)) then swap pm pl a else a);
          a2 = (if lt (v ! (a1 ! pr)) (v ! (a1 ! pm)) then swap pr pm a1 else a1);
          a3 = (if lt (v ! (a2 ! pm)) (v ! (a2 ! pl)) then swap pm pl a2 else a2);
          vp = v ! (a3 ! pm);
          a4 = swap pm (pr - 1) a3;
          (a5, ip) = part_loop lt v vp a4 pl (pr - 1)
      in (swap ip (pr - 1) a5, ip))"

text \<open>The insertion sort of a segment.\<close>

function ins_shift ::
  "('k \<Rightarrow> 'k \<Rightarrow> bool) \<Rightarrow> 'k list \<Rightarrow> 'k \<Rightarrow> nat \<Rightarrow> nat list \<Rightarrow> nat \<Rightarrow> nat list \<times> nat" where
  "ins_shift lt v vp pl a jp =
     (if pl < jp \<and> lt vp (v ! (a ! (jp - 1)))
      then ins_shift lt v vp pl (a[jp := a ! (jp - 1)]) (jp - 1)
      else (a, jp))"
  by pat_completeness auto
termination
  by (relation "measure (\<lambda>(lt, v, vp, pl, a, jp). jp)") auto

declare ins_shift.simps [simp del]

definition ins_step :: "('k \<Rightarrow> 'k \<Rightarrow> bool) \<Rightarrow> 'k list \<Rightarrow> nat \<Rightarrow> nat \<Rightarrow> nat list \<Rightarrow> nat list" where
  "ins_step lt v pl ip a =
     (let vi = a ! ip; (a', jp) = ins_shift lt v (v ! vi) pl a ip in a'[jp := vi])"

definition insertion_sort ::
  "('k \<Rightarrow> 'k \<Rightarrow> bool) \<Rightarrow> 'k list \<Rightarrow> nat list \<Rightarrow> nat \<Rightarrow> nat \<Rightarrow> nat list" where
  "insertion_sort lt v a pl pr = fold (ins_step lt v pl) [Suc pl..<Suc pr] a"

text \<open>
  The heapsort of the \<open>n\<close> positions from \<open>base\<close>; the heap is indexed from 1, so its
  element \<open>k\<close> is at position \<open>base + k - 1\<close>.
\<close>

function sift ::
  "('k \<Rightarrow> 'k \<Rightarrow> bool) \<Rightarrow> 'k list \<Rightarrow> nat \<Rightarrow> nat \<Rightarrow> nat \<Rightarrow> nat list \<Rightarrow> nat \<Rightarrow> nat \<Rightarrow> nat list \<times> nat" where
  "sift lt v base n tmp a i j =
     (if 0 < j \<and> j \<le> n then
        (let j' = (if j < n \<and> lt (v ! (a ! (base + j - 1))) (v ! (a ! (base + j))) then j + 1 else j)
         in if lt (v ! tmp) (v ! (a ! (base + j' - 1)))
            then sift lt v base n tmp (a[base + i - 1 := a ! (base + j' - 1)]) j' (2 * j')
            else (a, i))
      else (a, i))"
  by pat_completeness auto
termination
  by (relation "measure (\<lambda>(lt, v, base, n, tmp, a, i, j). Suc n - j)") auto

declare sift.simps [simp del]

definition heap_place ::
  "('k \<Rightarrow> 'k \<Rightarrow> bool) \<Rightarrow> 'k list \<Rightarrow> nat \<Rightarrow> nat \<Rightarrow> nat \<Rightarrow> nat list \<Rightarrow> nat list" where
  "heap_place lt v base n l a =
     (let tmp = a ! (base + l - 1); (a', i) = sift lt v base n tmp a l (2 * l)
      in a'[base + i - 1 := tmp])"

definition heap_pop ::
  "('k \<Rightarrow> 'k \<Rightarrow> bool) \<Rightarrow> 'k list \<Rightarrow> nat \<Rightarrow> nat \<Rightarrow> nat list \<Rightarrow> nat list" where
  "heap_pop lt v base n a =
     (let tmp = a ! (base + n - 1);
          a1 = a[base + n - 1 := a ! base];
          (a2, i) = sift lt v base (n - 1) tmp a1 1 2
      in a2[base + i - 1 := tmp])"

definition aheapsort ::
  "('k \<Rightarrow> 'k \<Rightarrow> bool) \<Rightarrow> 'k list \<Rightarrow> nat list \<Rightarrow> nat \<Rightarrow> nat \<Rightarrow> nat list" where
  "aheapsort lt v a base n =
     fold (heap_pop lt v base) (rev [2..<Suc n])
       (fold (heap_place lt v base n) (rev [1..<Suc (n div 2)]) a)"

text \<open>
  The segment from \<open>pl\<close> to \<open>pr\<close>. After a partition the shorter part is sorted first,
  without a look at the depth; the longer part is the one taken from the stack later,
  where the depth left decides between heapsort and further partitions. A pivot
  position outside the segment cannot arise from ordered keys; the test makes the
  recursion well-founded for every \<open>lt\<close>.
\<close>

function aquicksort_seg ::
  "('k \<Rightarrow> 'k \<Rightarrow> bool) \<Rightarrow> 'k list \<Rightarrow> nat list \<Rightarrow> nat \<Rightarrow> nat \<Rightarrow> int \<Rightarrow> nat list" where
  "aquicksort_seg lt v a pl pr cdepth =
     (if 16 < pr - pl then
        (case qs_partition lt v a pl pr of
           (a', ip) \<Rightarrow>
             if pl < ip \<and> ip \<le> pr then
               (if ip - pl < pr - ip then
                  (let a1 = aquicksort_seg lt v a' pl (ip - 1) (cdepth - 1)
                   in if cdepth - 1 < 0 then aheapsort lt v a1 (ip + 1) (pr - ip)
                      else aquicksort_seg lt v a1 (ip + 1) pr (cdepth - 1))
                else
                  (let a1 = aquicksort_seg lt v a' (ip + 1) pr (cdepth - 1)
                   in if cdepth - 1 < 0 then aheapsort lt v a1 pl (ip - pl)
                      else aquicksort_seg lt v a1 pl (ip - 1) (cdepth - 1)))
             else a')
      else insertion_sort lt v a pl pr)"
  by pat_completeness auto
termination
  by (relation "measure (\<lambda>(lt, v, a, pl, pr, cdepth). pr - pl)") auto

declare aquicksort_seg.simps [simp del]

text \<open>The depth limit is twice the position of the highest bit of the length.\<close>

fun npy_get_msb :: "nat \<Rightarrow> nat" where
  "npy_get_msb n = (if n < 2 then 0 else Suc (npy_get_msb (n div 2)))"

declare npy_get_msb.simps [simp del]

definition aquicksort :: "('k \<Rightarrow> 'k \<Rightarrow> bool) \<Rightarrow> 'k list \<Rightarrow> nat list" where
  "aquicksort lt v =
     (if v = [] then []
      else aquicksort_seg lt v [0..<length v] 0 (length v - 1) (2 * int (npy_get_msb (length v))))"

text \<open>Python's order on texts, by code points.\<close>

fun str_less :: "string \<Rightarrow> string \<Rightarrow> bool" where
  "str_less [] [] = False"
| "str_less [] (y # ys) = True"
| "str_less (x # xs) [] = False"
| "str_less (x # xs) (y # ys) =
     ((of_char x :: nat) < of_char y \<or> (x = y \<and> str_less xs ys))"

fun cell_kind :: "cell \<Rightarrow> nat" where
  "cell_kind (IntC n) = 0"
| "cell_kind (FloatC f) = 0"
| "cell_kind (StrC s) = 1"
| "cell_kind (TimeC t) = 2"
| "cell_kind NoneC = 3"
| "cell_kind NaTC = 4"

fun cell_time :: "cell \<Rightarrow> int" where
  "cell_time (TimeC t) = t"
| "cell_time c = 0"

fun cell_text :: "cell \<Rightarrow> string" where
  "cell_text (StrC s) = s"
| "cell_text c = []"

fun cell_value :: "cell \<Rightarrow> rat" where
  "cell_value (IntC n) = of_int n"
| "cell_value (FloatC (Fin q)) = q"
| "cell_value c = 0"

text \<open>
  \<open>np_argsort\<close> is the reference instance of the library's argsort. A column of
  timestamps is an array of 64-bit integers (\<^verbatim>\<open>datetime64\<close>) and is sorted as such, by
  \<open>aquicksort\<close> with the order of the integers; a column of texts is sorted by Python's
  order on texts and a column of numbers by their values; on a column of values that do
  not compare, a comparison raises \<^verbatim>\<open>TypeError\<close>. \<^verbatim>\<open>sort_values\<close> takes the missing values
  out before it calls argsort.
\<close>

definition np_argsort :: "cell list \<Rightarrow> error + nat list" where
  "np_argsort ks =
     (if list_all (\<lambda>k. cell_kind k = 2) ks then Inr (aquicksort (<) (map cell_time ks))
      else if list_all (\<lambda>k. cell_kind k = 1) ks then Inr (aquicksort str_less (map cell_text ks))
      else if list_all (\<lambda>k. cell_kind k = 0) ks then Inr (aquicksort (<) (map cell_value ks))
      else Inl TypeError)"

text \<open>
  \<open>repr_decimal\<close> is \<^verbatim>\<open>repr\<close> of a float that is a decimal of at most 15 significant
  digits, between \<^verbatim>\<open>1e-4\<close> and \<^verbatim>\<open>1e16\<close> in size or zero, such as \<^verbatim>\<open>50.0\<close>, \<^verbatim>\<open>1.5\<close> or
  \<^verbatim>\<open>-3.75\<close>: the sign, the integer part, the point and the decimals, at least one. For
  such a float the shortest decimal that reads back as the float, which is what Python
  prints, is the float's own expansion. (Other floats have a longer expansion than
  Python prints, or are printed with an exponent; no concrete input below has such a
  cell.)
\<close>

fun frac_digits :: "nat \<Rightarrow> rat \<Rightarrow> string" where
  "frac_digits 0 r = []"
| "frac_digits (Suc k) r =
     (if r = 0 then []
      else digit_char (nat \<lfloor>r * 10\<rfloor>) # frac_digits k (r * 10 - of_int \<lfloor>r * 10\<rfloor>))"

definition repr_decimal :: "rat \<Rightarrow> string" where
  "repr_decimal q =
     (if q < 0 then ''-'' else []) @ nat_str (nat \<lfloor>\<bar>q\<bar>\<rfloor>) @ ''.'' @
     (if \<bar>q\<bar> = of_int \<lfloor>\<bar>q\<bar>\<rfloor> then ''0'' else frac_digits 17 (\<bar>q\<bar> - of_int \<lfloor>\<bar>q\<bar>\<rfloor>))"

text \<open>
  The widgets as the script creates them, untouched: the number input at 50, no button
  clicked, an editor without edits, a line chart with markers, sorted by time, and the
  default file name. \<open>px_never_raises\<close> is a plotly that builds every chart.
\<close>

definition default_inputs :: inputs where
  "default_inputs =
     \<lparr>power_value = 50, add_clicked = False, clear_clicked = False, data_editor = (\<lambda>d. d),
      chart_type = Line, show_markers = True, sort_by_time = True,
      file_name = ''power_data.csv''\<rparr>"

definition px_never_raises :: "chart_kind \<Rightarrow> frame \<Rightarrow> error option" where
  "px_never_raises t d = None"

section \<open>What the argsort is verified against\<close>

text \<open>
  The notions in which the correctness of \<open>aquicksort\<close> is stated and proved, for keys
  of a linear order. \<open>seg_sorted\<close>: the keys at the positions from \<open>pl\<close> to \<open>pr\<close> of the
  index array are in non-decreasing order. \<open>seg_perm\<close>: the array \<open>b\<close> is the array \<open>a\<close>
  with its entries permuted, the same outside the positions from \<open>pl\<close> to \<open>pr\<close>.
  \<open>heap_key\<close> is the key of the element \<open>h\<close> of the heap at \<open>base\<close>, and \<open>heap_node\<close>
  says that it is not smaller than the keys of its children in a heap of \<open>n\<close> elements.
  \<open>parted\<close>: the keys before the position \<open>ip\<close> are not greater, and the keys after
  it not smaller, than the key at \<open>ip\<close>.
\<close>

definition seg_sorted :: "('k::linorder) list \<Rightarrow> nat list \<Rightarrow> nat \<Rightarrow> nat \<Rightarrow> bool" where
  "seg_sorted v a pl pr = (\<forall>i j. pl \<le> i \<and> i \<le> j \<and> j \<le> pr \<longrightarrow> v ! (a ! i) \<le> v ! (a ! j))"

definition seg_perm :: "nat \<Rightarrow> nat \<Rightarrow> nat list \<Rightarrow> nat list \<Rightarrow> bool" where
  "seg_perm pl pr a b =
     (length b = length a \<and> mset b = mset a \<and>
      (\<forall>k. k < length a \<and> (k < pl \<or> pr < k) \<longrightarrow> b ! k = a ! k))"

definition heap_key :: "('k::linorder) list \<Rightarrow> nat \<Rightarrow> nat list \<Rightarrow> nat \<Rightarrow> 'k" where
  "heap_key v base a h = v ! (a ! (base + h - 1))"

definition heap_node :: "('k::linorder) list \<Rightarrow> nat \<Rightarrow> nat \<Rightarrow> nat list \<Rightarrow> nat \<Rightarrow> bool" where
  "heap_node v base n a h =
     ((2 * h \<le> n \<longrightarrow> heap_key v base a (2 * h) \<le> heap_key v base a h) \<and>
      (2 * h + 1 \<le> n \<longrightarrow> heap_key v base a (2 * h + 1) \<le> heap_key v base a h))"

definition parted :: "('k::linorder) list \<Rightarrow> nat list \<Rightarrow> nat \<Rightarrow> nat \<Rightarrow> nat \<Rightarrow> bool" where
  "parted v a pl ip pr =
     ((\<forall>k. pl \<le> k \<and> k < ip \<longrightarrow> v ! (a ! k) \<le> v ! (a ! ip)) \<and>
      (\<forall>k. ip < k \<and> k \<le> pr \<longrightarrow> v ! (a ! ip) \<le> v ! (a ! k)))"

section \<open>Properties\<close>

lemma table_assign_df: "table (assign_df f s) = f"
  by (simp add: assign_df_def new_object_def table_def)

lemma wf_assign_df: "wf_session (assign_df f s)"
  by (simp add: assign_df_def new_object_def wf_session_def)

lemma is_digit_digit_char: "is_digit (digit_char d)"
proof -
  define k where "k = d mod 10"
  have "k < 10" by (simp add: k_def)
  then have "k = 0 \<or> k = 1 \<or> k = 2 \<or> k = 3 \<or> k = 4 \<or> k = 5 \<or> k = 6 \<or> k = 7 \<or> k = 8 \<or> k = 9"
    by arith
  then have "is_digit (''0123456789'' ! k)"
    by (elim disjE) (simp_all add: is_digit_def)
  then show ?thesis
    by (simp add: digit_char_def k_def)
qed

lemma digit_char_0: "digit_char 0 = CHR ''0''"
  by (simp add: digit_char_def)

lemma nat_str1: "n < 10 \<Longrightarrow> nat_str n = [digit_char n]"
  by (subst nat_str.simps) simp

lemma nat_str2: "10 \<le> n \<Longrightarrow> n < 100 \<Longrightarrow> nat_str n = [digit_char (n div 10), digit_char (n mod 10)]"
  by (subst nat_str.simps) (simp add: nat_str1)

lemma nat_str3: "100 \<le> n \<Longrightarrow> n < 1000 \<Longrightarrow>
   nat_str n = [digit_char (n div 100), digit_char (n div 10 mod 10), digit_char (n mod 10)]"
  by (subst nat_str.simps) (simp add: nat_str2 div_mult2_eq [symmetric])

lemma nat_str4: "1000 \<le> n \<Longrightarrow> n < 10000 \<Longrightarrow>
   nat_str n = [digit_char (n div 1000), digit_char (n div 100 mod 10), digit_char (n div 10 mod 10), digit_char (n mod 10)]"
  by (subst nat_str.simps) (simp add: nat_str3 div_mult2_eq [symmetric])

lemma zero_pad2: "n < 100 \<Longrightarrow> zero_pad 2 n = [digit_char (n div 10), digit_char (n mod 10)]"
  by (cases "n < 10") (simp_all add: zero_pad_def nat_str1 nat_str2 digit_char_0)

lemma zero_pad4: "1000 \<le> n \<Longrightarrow> n \<le> 9999 \<Longrightarrow>
  zero_pad 4 n = [digit_char (n div 1000), digit_char (n div 100 mod 10),
                  digit_char (n div 10 mod 10), digit_char (n mod 10)]"
  by (simp add: zero_pad_def nat_str4)


lemma is_ymd_hms_I:
  "list_all is_digit [y1, y2, y3, y4, m1, m2, d1, d2, h1, h2, n1, n2, s1, s2] \<Longrightarrow>
   is_ymd_hms [y1, y2, y3, y4, CHR ''-'', m1, m2, CHR ''-'', d1, d2, CHR '' '', h1, h2, CHR '':'', n1, n2, CHR '':'', s1, s2]"
  by (simp add: is_ymd_hms_def)

lemma strftime_shape: "valid_datetime t \<Longrightarrow> is_ymd_hms (strftime t)"
  unfolding valid_datetime_def strftime_def
  by (simp add: zero_pad2 zero_pad4 is_ymd_hms_I is_digit_digit_char)

lemma is_table_iff:
  "is_table d \<longleftrightarrow> (\<exists>c1 c2. d = [(''Date Time'', c1), (''Power'', c2)] \<and> length c1 = length c2)"
proof (cases d)
  case Nil
  then show ?thesis by (simp add: is_table_def)
next
  case (Cons a d1)
  note d = this
  obtain n1 c1 where a: "a = (n1, c1)" by (cases a)
  show ?thesis
  proof (cases d1)
    case Nil
    with d a show ?thesis by (simp add: is_table_def)
  next
    case (Cons b d2)
    obtain n2 c2 where b: "b = (n2, c2)" by (cases b)
    show ?thesis
      using d a b Cons by (cases d2) (auto simp: is_table_def)
  qed
qed

lemma concat_table:
  assumes "is_table d"
  shows "rows (concat_frames d [(''Date Time'', [x]), (''Power'', [y])]) = rows d @ [(x, y)]"
    and "columns (concat_frames d [(''Date Time'', [x]), (''Power'', [y])]) = columns d"
    and "is_table (concat_frames d [(''Date Time'', [x]), (''Power'', [y])])"
    and "nrows (concat_frames d [(''Date Time'', [x]), (''Power'', [y])]) = Suc (nrows d)"
proof -
  from assms obtain c1 c2 where d: "d = [(''Date Time'', c1), (''Power'', c2)]"
    and len: "length c1 = length c2"
    by (auto simp: is_table_iff)
  have c: "concat_frames d [(''Date Time'', [x]), (''Power'', [y])] =
             [(''Date Time'', c1 @ [x]), (''Power'', c2 @ [y])]"
    by (simp add: d concat_frames_def column_or_nan_def)
  show "rows (concat_frames d [(''Date Time'', [x]), (''Power'', [y])]) = rows d @ [(x, y)]"
    by (simp add: c) (simp add: d rows_def column_or_nan_def len)
  show "columns (concat_frames d [(''Date Time'', [x]), (''Power'', [y])]) = columns d"
    by (simp add: c) (simp add: d columns_def)
  show "is_table (concat_frames d [(''Date Time'', [x]), (''Power'', [y])])"
    by (simp add: c) (simp add: is_table_def len)
  show "nrows (concat_frames d [(''Date Time'', [x]), (''Power'', [y])]) = Suc (nrows d)"
    by (simp add: c) (simp add: d nrows_def)
qed

lemma strftime_example: "strftime \<lparr>year = 2024, month = 3, day = 9, hour = 7, minute = 5, second = 0\<rparr> = ''2024-03-09 07:05:00''"
  by (simp add: strftime_def zero_pad2 zero_pad4 digit_char_def)

lemma length_rows: "is_table d \<Longrightarrow> length (rows d) = nrows d"
  by (auto simp: is_table_iff rows_def nrows_def column_or_nan_def)

lemma is_table_initial: "is_table (table initial_session)"
  by (simp add: initial_session_def table_assign_df DataFrame_columns_def is_table_def)

lemma digit_val_digit_char: "digit_val (digit_char d) = d mod 10"
proof -
  define k where "k = d mod 10"
  have "k < 10" by (simp add: k_def)
  then have "k = 0 \<or> k = 1 \<or> k = 2 \<or> k = 3 \<or> k = 4 \<or> k = 5 \<or> k = 6 \<or> k = 7 \<or> k = 8 \<or> k = 9"
    by arith
  then have "digit_val (''0123456789'' ! k) = k"
    by (elim disjE) (simp_all add: digit_val_def)
  then show ?thesis
    by (simp add: digit_char_def k_def)
qed

lemma digits_nat_snoc: "digits_nat (s @ [c]) = 10 * digits_nat s + digit_val c"
  by (simp add: digits_nat_def)

lemma digits_nat_nat_str: "digits_nat (nat_str n) = n"
proof (induction n rule: nat_str.induct)
  case (1 n)
  show ?case
  proof (cases "n < 10")
    case True
    then show ?thesis
      by (subst nat_str.simps) (simp add: digits_nat_def digit_val_digit_char)
  next
    case False
    with 1 have "digits_nat (nat_str (n div 10)) = n div 10" by simp
    with False show ?thesis
      by (subst nat_str.simps) (simp add: digits_nat_snoc digit_val_digit_char)
  qed
qed

lemma digits_nat_zeros: "foldl (\<lambda>a c. 10 * a + digit_val c) 0 (replicate k (CHR ''0'') @ s) =
    foldl (\<lambda>a c. 10 * a + digit_val c) 0 s"
  by (induction k) (simp_all add: digit_val_def)

lemma digits_nat_zero_pad: "digits_nat (zero_pad w n) = n"
  using digits_nat_zeros [of "w - length (nat_str n)" "nat_str n"] digits_nat_nat_str [of n]
  by (simp add: zero_pad_def digits_nat_def)

lemma length_zero_pad2: "n < 100 \<Longrightarrow> length (zero_pad 2 n) = 2"
  by (simp add: zero_pad2)

lemma length_zero_pad4: "1000 \<le> n \<Longrightarrow> n \<le> 9999 \<Longrightarrow> length (zero_pad 4 n) = 4"
  by (simp add: zero_pad4)

lemma strftime_fields:
  assumes "valid_datetime t"
  shows "digits_nat (take 4 (strftime t)) = year t"
    and "digits_nat (take 2 (drop 5 (strftime t))) = month t"
    and "digits_nat (take 2 (drop 8 (strftime t))) = day t"
    and "digits_nat (take 2 (drop 11 (strftime t))) = hour t"
    and "digits_nat (take 2 (drop 14 (strftime t))) = minute t"
    and "digits_nat (take 2 (drop 17 (strftime t))) = second t"
proof -
  have l4: "length (zero_pad 4 (year t)) = 4"
    using assms by (intro length_zero_pad4) (simp_all add: valid_datetime_def)
  have l2: "length (zero_pad 2 (month t)) = 2" "length (zero_pad 2 (day t)) = 2"
    "length (zero_pad 2 (hour t)) = 2" "length (zero_pad 2 (minute t)) = 2"
    "length (zero_pad 2 (second t)) = 2"
    using assms by (simp_all add: valid_datetime_def length_zero_pad2)
  show "digits_nat (take 4 (strftime t)) = year t"
    by (simp add: strftime_def l4 digits_nat_zero_pad)
  show "digits_nat (take 2 (drop 5 (strftime t))) = month t"
    by (simp add: strftime_def l4 l2 digits_nat_zero_pad)
  show "digits_nat (take 2 (drop 8 (strftime t))) = day t"
    by (simp add: strftime_def l4 l2 digits_nat_zero_pad)
  show "digits_nat (take 2 (drop 11 (strftime t))) = hour t"
    by (simp add: strftime_def l4 l2 digits_nat_zero_pad)
  show "digits_nat (take 2 (drop 14 (strftime t))) = minute t"
    by (simp add: strftime_def l4 l2 digits_nat_zero_pad)
  show "digits_nat (take 2 (drop 17 (strftime t))) = second t"
    by (simp add: strftime_def l4 l2 digits_nat_zero_pad)
qed

lemma is_table_two:
  "length c1 = length c2 \<Longrightarrow> is_table (table (data_editor_writeback [(''Date Time'', c1), (''Power'', c2)] s))"
  by (simp add: data_editor_writeback_def table_assign_df is_table_iff)

text \<open>
  C1. For every table and every integer power in the range of the number input, the add
  handler stores a table whose first rows are the old rows, unchanged and in order, and
  whose last row is the clock's time with the power. The time is written to the second
  as \<^verbatim>\<open>YYYY-MM-DD HH:MM:SS\<close>: the text has that shape, and its six groups of digits
  read back as the year, month, day, hour, minute and second of the clock. The handler has
  no branch that raises.
\<close>

theorem add_appends_row:
  assumes "is_table (table s)" and "- 100000 \<le> p" and "p \<le> 100000" and "valid_datetime clock"
  shows "rows (table (on_add_clicked clock p s)) = rows (table s) @ [(StrC (strftime clock), IntC p)] \<and>
         take (nrows (table s)) (rows (table (on_add_clicked clock p s))) = rows (table s) \<and>
         rows (table (on_add_clicked clock p s)) ! nrows (table s) = (StrC (strftime clock), IntC p) \<and>
         nrows (table (on_add_clicked clock p s)) = Suc (nrows (table s)) \<and>
         columns (table (on_add_clicked clock p s)) = columns (table s) \<and>
         is_table (table (on_add_clicked clock p s)) \<and>
         is_ymd_hms (strftime clock) \<and>
         digits_nat (take 4 (strftime clock)) = year clock \<and>
         digits_nat (take 2 (drop 5 (strftime clock))) = month clock \<and>
         digits_nat (take 2 (drop 8 (strftime clock))) = day clock \<and>
         digits_nat (take 2 (drop 11 (strftime clock))) = hour clock \<and>
         digits_nat (take 2 (drop 14 (strftime clock))) = minute clock \<and>
         digits_nat (take 2 (drop 17 (strftime clock))) = second clock"
proof -
  let ?new = "[(''Date Time'', [StrC (strftime clock)]), (''Power'', [IntC p])]"
  have t: "table (on_add_clicked clock p s) = concat_frames (table s) ?new"
    by (simp add: on_add_clicked_def table_assign_df)
  have r: "rows (table (on_add_clicked clock p s)) = rows (table s) @ [(StrC (strftime clock), IntC p)]"
    by (simp add: t concat_table(1) [OF assms(1)])
  have len: "length (rows (table s)) = nrows (table s)"
    by (rule length_rows [OF assms(1)])
  have "take (nrows (table s)) (rows (table (on_add_clicked clock p s))) = rows (table s)"
    by (simp add: r len)
  moreover have "rows (table (on_add_clicked clock p s)) ! nrows (table s) = (StrC (strftime clock), IntC p)"
    by (simp add: r len [symmetric])
  moreover have "nrows (table (on_add_clicked clock p s)) = Suc (nrows (table s))"
    by (simp add: t concat_table(4) [OF assms(1)])
  moreover have "columns (table (on_add_clicked clock p s)) = columns (table s)"
    by (simp add: t concat_table(2) [OF assms(1)])
  moreover have "is_table (table (on_add_clicked clock p s))"
    by (simp add: t concat_table(3) [OF assms(1)])
  moreover have "is_ymd_hms (strftime clock)"
    by (rule strftime_shape [OF assms(4)])
  moreover note strftime_fields [OF assms(4)]
  ultimately show ?thesis using r by simp
qed

theorem add_appends_row_witness:
  "is_table (table (data_editor_writeback
       [(''Date Time'', [StrC ''2024-03-09 07:04:59'', StrC ''not a date'']),
        (''Power'', [IntC 50, FloatC (Fin (3 / 2))])] initial_session)) \<and>
   (- 100000 :: int) \<le> - 7 \<and> (- 7 :: int) \<le> 100000 \<and>
   valid_datetime \<lparr>year = 2024, month = 3, day = 9, hour = 7, minute = 5, second = 0\<rparr> \<and>
   rows (table (on_add_clicked \<lparr>year = 2024, month = 3, day = 9, hour = 7, minute = 5, second = 0\<rparr> (- 7)
     (data_editor_writeback
       [(''Date Time'', [StrC ''2024-03-09 07:04:59'', StrC ''not a date'']),
        (''Power'', [IntC 50, FloatC (Fin (3 / 2))])] initial_session))) =
     [(StrC ''2024-03-09 07:04:59'', IntC 50), (StrC ''not a date'', FloatC (Fin (3 / 2))),
      (StrC ''2024-03-09 07:05:00'', IntC (- 7))] \<and>
   digits_nat (take 2 (drop 5 ''2024-03-09 07:05:00'')) = 3 \<and>
   digits_nat (take 2 (drop 8 ''2024-03-09 07:05:00'')) = 9"
proof -
  let ?c = "\<lparr>year = 2024, month = 3, day = 9, hour = 7, minute = 5, second = 0\<rparr>"
  let ?d = "[(''Date Time'', [StrC ''2024-03-09 07:04:59'', StrC ''not a date'']),
        (''Power'', [IntC 50, FloatC (Fin (3 / 2))])]"
  let ?s = "data_editor_writeback ?d initial_session"
  have v: "valid_datetime ?c" by (simp add: valid_datetime_def)
  have it: "is_table (table ?s)" by (rule is_table_two) simp
  have e: "rows (table ?s) = [(StrC ''2024-03-09 07:04:59'', IntC 50), (StrC ''not a date'', FloatC (Fin (3 / 2)))]"
    by (simp add: data_editor_writeback_def table_assign_df rows_def column_or_nan_def)
  from add_appends_row [OF it _ _ v, of "- 7"]
  have "rows (table (on_add_clicked ?c (- 7) ?s)) = rows (table ?s) @ [(StrC (strftime ?c), IntC (- 7))] \<and>
        digits_nat (take 2 (drop 5 (strftime ?c))) = month ?c \<and>
        digits_nat (take 2 (drop 8 (strftime ?c))) = day ?c"
    by simp
  then show ?thesis
    using v it by (simp add: e strftime_example)
qed

text \<open>
  C8. Applying the same edited table twice leaves the Table Store as applying it once
  does: it holds the edited table.
\<close>

theorem editor_apply_idempotent:
  "table (data_editor_writeback edited_df (data_editor_writeback edited_df s)) =
     table (data_editor_writeback edited_df s) \<and>
   table (data_editor_writeback edited_df s) = edited_df"
  by (simp add: data_editor_writeback_def table_assign_df)

text \<open>
  C9. For every prior state, clear replaces the Table Store with a table of zero rows
  whose columns are the timestamp column then the power column; it cannot fail.
\<close>

theorem clear_yields_empty_table:
  "table (on_clear_clicked s) = [(''Date Time'', []), (''Power'', [])] \<and>
   columns (table (on_clear_clicked s)) = [''Date Time'', ''Power''] \<and>
   nrows (table (on_clear_clicked s)) = 0 \<and>
   rows (table (on_clear_clicked s)) = [] \<and>
   is_table (table (on_clear_clicked s)) \<and>
   table (on_clear_clicked s) = table initial_session"
  by (simp add: on_clear_clicked_def initial_session_def table_assign_df DataFrame_columns_def
      columns_def nrows_def rows_def is_table_def column_or_nan_def)

lemma parse_example: "parse_ymd_hms ''2024-03-09 07:05:00'' = Some 20240309070500"
  by (simp add: parse_ymd_hms_def is_ymd_hms_def is_digit_def digits_nat_def digit_val_def days_in_month_def)

lemma parse_example2: "parse_ymd_hms ''2024-03-09 07:04:59'' = Some 20240309070459"
  by (simp add: parse_ymd_hms_def is_ymd_hms_def is_digit_def digits_nat_def digit_val_def days_in_month_def)

lemma parse_not_a_date: "parse_ymd_hms ''not a date'' = None"
  by (simp add: parse_ymd_hms_def is_ymd_hms_def)

lemma str_example: "str_ymd_hms 20240309070459 = ''2024-03-09 07:04:59''"
  by (simp add: str_ymd_hms_def zero_pad2 zero_pad4 digit_char_def)

lemma int_of_str_abc: "int_of_str ''abc'' = Inl ValueError"
  by (simp add: int_of_str_def strip_def is_space_def is_digit_def)

text \<open>
  C2. On the empty table (here the one the clear handler stores) the run shows 0 for
  Total rows and the em dash for Latest Power and for Average Power, and raises
  nothing; for Start time the script calls \<^verbatim>\<open>st.metric\<close> on no path, so that metric
  is not shown at all: line 47 has no \<^verbatim>\<open>else\<close>.
\<close>

theorem metrics_on_empty_table:
  "top_metrics parse show_ts mean rnd (on_clear_clicked s) =
     (Inr \<lparr>total_rows = 0, latest_power = VStr no_data, avg_power = VStr no_data,
           start_time = None\<rparr>, on_clear_clicked s)"
proof -
  have t: "objects (on_clear_clicked s) (state_df (on_clear_clicked s)) =
             [(''Date Time'', []), (''Power'', [])]"
    using table_assign_df [of "DataFrame_columns [''Date Time'', ''Power'']" s]
    by (simp add: on_clear_clicked_def table_def DataFrame_columns_def)
  have e: "empty_frame [(''Date Time'', []), (''Power'', [])]"
    by (simp add: empty_frame_def nrows_def)
  show ?thesis
    by (simp add: top_metrics_def t latest_power_metric_def avg_power_metric_def
        start_time_metric_def e then_do_def nrows_def)
qed

text \<open>
  C4. A table whose last power cell is the text \<^verbatim>\<open>abc\<close>: \<^verbatim>\<open>int("abc")\<close> on line 39
  raises \<^verbatim>\<open>ValueError\<close>, nothing catches it, and the run ends there, whatever the
  widgets return: neither tab 1 (add, clear, the editor) nor the export is reached, and
  the store keeps the table, so the next run ends the same way.
\<close>

theorem nonnumeric_power_ends_run:
  "app_run L clock inp
     (data_editor_writeback
        [(''Date Time'', [StrC ''2024-03-09 07:05:00'']), (''Power'', [StrC ''abc''])] s) =
   (Inl ValueError,
    data_editor_writeback
        [(''Date Time'', [StrC ''2024-03-09 07:05:00'']), (''Power'', [StrC ''abc''])] s)"
proof -
  let ?d = "[(''Date Time'', [StrC ''2024-03-09 07:05:00'']), (''Power'', [StrC ''abc''])]"
  have t: "objects (data_editor_writeback ?d s) (state_df (data_editor_writeback ?d s)) = ?d"
    using table_assign_df [of ?d s] by (simp add: data_editor_writeback_def table_def)
  have l: "latest_power_metric ?d = Inl ValueError"
    by (simp add: latest_power_metric_def empty_frame_def nrows_def getitem_def iloc_last_def
        then_do_def int_of_str_abc)
  show ?thesis
    by (simp add: app_run_def top_metrics_def t l then_do_def)
qed

lemma py_trunc_props:
  assumes "v \<notin> \<int>"
  shows "of_int (py_trunc v) \<noteq> v" and "\<bar>of_int (py_trunc v)\<bar> < \<bar>v\<bar>"
    and "\<bar>v\<bar> < \<bar>of_int (py_trunc v)\<bar> + 1" and "0 \<le> of_int (py_trunc v) * v"
proof -
  have nf: "of_int \<lfloor>v\<rfloor> \<noteq> v" and nc: "of_int \<lceil>v\<rceil> \<noteq> v"
    using assms by (metis Ints_of_int)+
  have f: "of_int \<lfloor>v\<rfloor> < v" using nf of_int_floor_le [of v] by linarith
  have c: "v < of_int \<lceil>v\<rceil>" using nc le_of_int_ceiling [of v] by linarith
  have f1: "v < of_int \<lfloor>v\<rfloor> + 1" by linarith
  have c1: "of_int \<lceil>v\<rceil> - 1 < v" by linarith
  show "of_int (py_trunc v) \<noteq> v"
    using nf nc by (simp add: py_trunc_def)
  consider (pos) "0 \<le> v" | (neg) "v < 0" by linarith
  then have "\<bar>of_int (py_trunc v)\<bar> < \<bar>v\<bar> \<and> \<bar>v\<bar> < \<bar>of_int (py_trunc v)\<bar> + 1 \<and>
             0 \<le> of_int (py_trunc v) * v"
  proof cases
    case pos
    then have t: "py_trunc v = \<lfloor>v\<rfloor>" by (simp add: py_trunc_def)
    from pos have "0 \<le> \<lfloor>v\<rfloor>" by simp
    then have a: "\<bar>of_int \<lfloor>v\<rfloor> :: rat\<bar> = of_int \<lfloor>v\<rfloor>" and n: "(0::rat) \<le> of_int \<lfloor>v\<rfloor>"
      by simp_all
    from pos have b: "\<bar>v\<bar> = v" by simp
    show ?thesis
      using f f1 n pos unfolding t a b by simp
  next
    case neg
    then have t: "py_trunc v = \<lceil>v\<rceil>" by (simp add: py_trunc_def)
    from neg have "\<lceil>v\<rceil> \<le> 0" by (simp add: ceiling_le_iff)
    then have n: "of_int \<lceil>v\<rceil> \<le> (0::rat)" by simp
    then have a: "\<bar>of_int \<lceil>v\<rceil> :: rat\<bar> = - of_int \<lceil>v\<rceil>" by simp
    from neg have b: "\<bar>v\<bar> = - v" by simp
    have m: "0 \<le> of_int \<lceil>v\<rceil> * v"
      using n neg by (simp add: mult_nonpos_nonpos)
    show ?thesis
      using c c1 m unfolding t a b by simp
  qed
  then show "\<bar>of_int (py_trunc v)\<bar> < \<bar>v\<bar>" and "\<bar>v\<bar> < \<bar>of_int (py_trunc v)\<bar> + 1"
    and "0 \<le> of_int (py_trunc v) * v"
    by simp_all
qed

lemma last_rows:
  assumes "is_table d" and "\<not> empty_frame d"
  shows "\<exists>c. getitem d ''Power'' = Inr c \<and> c \<noteq> [] \<and> last c = snd (last (rows d))"
proof -
  from assms(1) obtain c1 c2 where d: "d = [(''Date Time'', c1), (''Power'', c2)]"
    and len: "length c1 = length c2"
    by (auto simp: is_table_iff)
  from assms(2) have ne: "c1 \<noteq> []" by (simp add: d empty_frame_def nrows_def)
  with len have ne2: "c2 \<noteq> []" by auto
  have "last (zip c1 c2) = (last c1, last c2)"
    using len ne ne2 by (simp add: last_zip)
  then show ?thesis
    by (simp add: d getitem_def rows_def column_or_nan_def ne2)
qed

text \<open>
  C10. When the last power cell of a non-empty table is a finite float that is not an
  integer, Latest Power shows \<^verbatim>\<open>int\<close> of it: the integer next to it toward zero, which
  differs from the stored value.
\<close>

theorem latest_power_truncates:
  assumes "is_table d" and "\<not> empty_frame d"
    and "snd (last (rows d)) = FloatC (Fin v)" and "v \<notin> \<int>"
  shows "latest_power_metric d = Inr (VInt (py_trunc v)) \<and>
         of_int (py_trunc v) \<noteq> v \<and>
         \<bar>of_int (py_trunc v)\<bar> < \<bar>v\<bar> \<and> \<bar>v\<bar> < \<bar>of_int (py_trunc v)\<bar> + 1 \<and>
         0 \<le> of_int (py_trunc v) * v"
proof -
  from last_rows [OF assms(1,2)] obtain c where c: "getitem d ''Power'' = Inr c" "c \<noteq> []"
    "last c = snd (last (rows d))" by blast
  have "iloc_last c = Inr (FloatC (Fin v))"
    using c assms(3) by (cases c) (simp_all add: iloc_last_def)
  then have "latest_power_metric d = Inr (VInt (py_trunc v))"
    using assms(2) c(1) by (simp add: latest_power_metric_def then_do_def)
  then show ?thesis
    using py_trunc_props [OF assms(4)] by simp
qed

lemma py_trunc_example_neg: "py_trunc (- (15 / 4)) = - 3"
  by code_simp

theorem latest_power_truncates_witness:
  "is_table [(''Date Time'', [StrC ''2024-03-09 07:05:00'']), (''Power'', [FloatC (Fin (- (15 / 4)))])] \<and>
   \<not> empty_frame [(''Date Time'', [StrC ''2024-03-09 07:05:00'']), (''Power'', [FloatC (Fin (- (15 / 4)))])] \<and>
   (- (15 / 4) :: rat) \<notin> \<int> \<and>
   latest_power_metric
     [(''Date Time'', [StrC ''2024-03-09 07:05:00'']), (''Power'', [FloatC (Fin (- (15 / 4)))])] =
     Inr (VInt (- 3))"
proof -
  let ?d = "[(''Date Time'', [StrC ''2024-03-09 07:05:00'']), (''Power'', [FloatC (Fin (- (15 / 4)))])]"
  have 1: "is_table ?d" by (simp add: is_table_def)
  have 2: "\<not> empty_frame ?d" by (simp add: empty_frame_def nrows_def)
  have 3: "snd (last (rows ?d)) = FloatC (Fin (- (15 / 4)))"
    by (simp add: rows_def column_or_nan_def)
  have 4: "(- (15 / 4) :: rat) \<notin> \<int>" by simp
  from latest_power_truncates [OF 1 2 3 4] have "latest_power_metric ?d = Inr (VInt (py_trunc (- (15 / 4))))"
    by simp
  then show ?thesis using 1 2 4 by (simp add: py_trunc_example_neg)
qed

lemma fold_min_props:
  fixes x :: int
  shows "fold min xs x \<in> set (x # xs) \<and> (\<forall>u \<in> set (x # xs). fold min xs x \<le> u)"
proof (induction xs arbitrary: x)
  case Nil
  then show ?case by simp
next
  case (Cons y ys)
  from Cons.IH [of "min y x"] show ?case
    by (auto simp: min_def split: if_splits)
qed

lemma series_min_props:
  assumes "Some t \<in> set ts"
  shows "\<exists>m. series_min ts = Some m \<and> Some m \<in> set ts \<and> (\<forall>u. Some u \<in> set ts \<longrightarrow> m \<le> u)"
proof -
  have s: "set (List.map_filter id ts) = {u. Some u \<in> set ts}"
    by (induction ts) (auto simp: List.map_filter_simps split: option.splits)
  with assms have "List.map_filter id ts \<noteq> []" by auto
  then obtain x xs where c: "List.map_filter id ts = x # xs" by (cases "List.map_filter id ts") auto
  have m: "series_min ts = Some (fold min xs x)" by (simp add: series_min_def c)
  from fold_min_props [of xs x] s c
  have "Some (fold min xs x) \<in> set ts" and "\<forall>u. Some u \<in> set ts \<longrightarrow> fold min xs x \<le> u"
    by auto
  with m show ?thesis by blast
qed

lemma date_time_column:
  assumes "is_table d"
  shows "getitem d ''Date Time'' = Inr (map fst (rows d))"
proof -
  from assms obtain c1 c2 where d: "d = [(''Date Time'', c1), (''Power'', c2)]"
    and len: "length c1 = length c2"
    by (auto simp: is_table_iff)
  show ?thesis by (simp add: d getitem_def rows_def column_or_nan_def len)
qed

text \<open>
  C5, as the code has it. For every non-empty table: when \<^verbatim>\<open>pd.to_datetime\<close> parses the
  timestamp column, Start time shows the least of the parsed timestamps (\<^verbatim>\<open>NaT\<close> is
  skipped); when it raises, which with the default \<^verbatim>\<open>errors="raise"\<close> it does as soon as
  one cell cannot be parsed, Start time shows \<^verbatim>\<open>Invalid Date\<close>: the parseable cells of
  such a column are not used.
\<close>

theorem start_time_all_or_nothing:
  assumes "is_table d" and "\<not> empty_frame d"
  shows "(parse (map fst (rows d)) = Inr ts \<longrightarrow>
            start_time_metric parse show_ts d = Some (VStr (str_timestamp show_ts (series_min ts)))) \<and>
         (parse (map fst (rows d)) = Inr ts \<longrightarrow> Some t \<in> set ts \<longrightarrow>
            (\<exists>m. series_min ts = Some m \<and> Some m \<in> set ts \<and> (\<forall>u. Some u \<in> set ts \<longrightarrow> m \<le> u) \<and>
                 start_time_metric parse show_ts d = Some (VStr (show_ts m)))) \<and>
         (parse (map fst (rows d)) = Inl e \<longrightarrow>
            start_time_metric parse show_ts d = Some (VStr ''Invalid Date''))"
proof -
  have g: "getitem d ''Date Time'' = Inr (map fst (rows d))"
    by (rule date_time_column [OF assms(1)])
  have a: "parse (map fst (rows d)) = Inr ts \<Longrightarrow>
            start_time_metric parse show_ts d = Some (VStr (str_timestamp show_ts (series_min ts)))"
    using assms(2) by (simp add: start_time_metric_def g then_do_def)
  have b: "parse (map fst (rows d)) = Inl e \<Longrightarrow>
            start_time_metric parse show_ts d = Some (VStr ''Invalid Date'')"
    using assms(2) by (simp add: start_time_metric_def g then_do_def)
  have c: "\<exists>m. series_min ts = Some m \<and> Some m \<in> set ts \<and> (\<forall>u. Some u \<in> set ts \<longrightarrow> m \<le> u) \<and>
                 start_time_metric parse show_ts d = Some (VStr (show_ts m))"
    if p: "parse (map fst (rows d)) = Inr ts" and t: "Some t \<in> set ts"
  proof -
    from series_min_props [OF t] obtain m where m: "series_min ts = Some m" "Some m \<in> set ts"
      "\<forall>u. Some u \<in> set ts \<longrightarrow> m \<le> u" by blast
    from a [OF p] m(1) have "start_time_metric parse show_ts d = Some (VStr (show_ts m))"
      by (simp add: str_timestamp_def)
    with m show ?thesis by blast
  qed
  from a b c show ?thesis by blast
qed

theorem start_time_all_or_nothing_witness:
  "is_table [(''Date Time'', [StrC ''2024-03-09 07:05:00'', StrC ''2024-03-09 07:04:59'']),
             (''Power'', [IntC 50, IntC 40])] \<and>
   \<not> empty_frame [(''Date Time'', [StrC ''2024-03-09 07:05:00'', StrC ''2024-03-09 07:04:59'']),
             (''Power'', [IntC 50, IntC 40])] \<and>
   start_time_metric to_datetime_ymd_hms str_ymd_hms
     [(''Date Time'', [StrC ''2024-03-09 07:05:00'', StrC ''2024-03-09 07:04:59'']),
      (''Power'', [IntC 50, IntC 40])] = Some (VStr ''2024-03-09 07:04:59'')"
proof -
  let ?d = "[(''Date Time'', [StrC ''2024-03-09 07:05:00'', StrC ''2024-03-09 07:04:59'']),
             (''Power'', [IntC 50, IntC 40])]"
  have 1: "is_table ?d" by (simp add: is_table_def)
  have 2: "\<not> empty_frame ?d" by (simp add: empty_frame_def nrows_def)
  have 3: "to_datetime_ymd_hms (map fst (rows ?d)) = Inr [Some 20240309070500, Some 20240309070459]"
    by (simp add: rows_def column_or_nan_def then_do_def parse_example parse_example2)
  have 4: "series_min [Some 20240309070500, Some 20240309070459] = Some 20240309070459"
    by (simp add: series_min_def List.map_filter_def)
  from start_time_all_or_nothing [OF 1 2, of to_datetime_ymd_hms
      "[Some 20240309070500, Some 20240309070459]" str_ymd_hms] 3
  have "start_time_metric to_datetime_ymd_hms str_ymd_hms ?d =
          Some (VStr (str_timestamp str_ymd_hms (series_min [Some 20240309070500, Some 20240309070459])))"
    by blast
  then show ?thesis
    using 1 2 by (simp add: 4 str_timestamp_def str_example)
qed

text \<open>
  C5 as stated fails: of the two timestamps below the second parses and the first does
  not, and Start time shows \<^verbatim>\<open>Invalid Date\<close>, not the timestamp that parses.
\<close>

theorem start_time_mixed_counterexample:
  "to_datetime_ymd_hms [StrC ''2024-03-09 07:05:00''] = Inr [Some 20240309070500] \<and>
   to_datetime_ymd_hms [StrC ''not a date''] = Inl ValueError \<and>
   start_time_metric to_datetime_ymd_hms str_ymd_hms
     [(''Date Time'', [StrC ''not a date'', StrC ''2024-03-09 07:05:00'']),
      (''Power'', [IntC 50, IntC 40])] = Some (VStr ''Invalid Date'') \<and>
   str_ymd_hms 20240309070500 \<noteq> ''Invalid Date''"
  by (simp add: start_time_metric_def empty_frame_def nrows_def getitem_def then_do_def
      parse_example parse_not_a_date str_ymd_hms_def zero_pad2 zero_pad4 digit_char_def)

lemma store_kept_refl: "store_kept s s"
  by (simp add: store_kept_def)

lemma store_kept_table: "store_kept s s' \<Longrightarrow> table s' = table s"
  by (simp add: store_kept_def table_def)

lemma top_metrics_keeps: "snd (top_metrics parse show_ts mean rnd s) = s"
  by (simp add: top_metrics_def Let_def)

lemma tab_export_keeps: "snd (tab_export show_ts repr nl inp s) = s"
  by (simp add: tab_export_def)

lemma plot_frame_keeps:
  assumes "state_df s1 < fresh s1" and "df_plot \<noteq> state_df s1"
  shows "store_kept s1 (snd (plot_frame parse sorter inp df_plot s1))"
proof -
  obtain warned s2 where p:
    "(case then_do (getitem (objects s1 df_plot) ''Date Time'') parse of
        Inr ts \<Rightarrow> (False, setitem df_plot ''Date Time'' (map timestamp_cell ts) s1)
      | Inl e \<Rightarrow> (True, s1)) = (warned, s2)"
    by (cases "case then_do (getitem (objects s1 df_plot) ''Date Time'') parse of
        Inr ts \<Rightarrow> (False, setitem df_plot ''Date Time'' (map timestamp_cell ts) s1)
      | Inl e \<Rightarrow> (True, s1)") auto
  have k2: "store_kept s1 s2" and f2: "fresh s2 = fresh s1"
    using p assms(2)
    by (auto simp: store_kept_def setitem_def split: sum.splits)
  obtain a s3 where q:
    "(if sort_by_time inp then
        (case sort_values sorter ''Date Time'' (objects s2 df_plot) of
           Inr f \<Rightarrow> new_object f s2
         | Inl e \<Rightarrow> (df_plot, s2))
      else (df_plot, s2)) = (a, s3)"
    by (cases "if sort_by_time inp then
        (case sort_values sorter ''Date Time'' (objects s2 df_plot) of
           Inr f \<Rightarrow> new_object f s2
         | Inl e \<Rightarrow> (df_plot, s2))
      else (df_plot, s2)") auto
  have "state_df s2 < fresh s2"
    using k2 f2 assms(1) by (simp add: store_kept_def)
  then have k3: "store_kept s2 s3"
    using q by (auto simp: store_kept_def new_object_def split: if_splits sum.splits)
  have "snd (plot_frame parse sorter inp df_plot s1) = s3"
    by (simp add: plot_frame_def p q)
  then show ?thesis
    using k2 k3 by (simp add: store_kept_def)
qed

lemma tab_plot_keeps:
  assumes "wf_session s"
  shows "store_kept s (snd (tab_plot parse sorter raises inp s))"
proof -
  let ?s1 = "snd (copy_frame (state_df s) s)"
  let ?a = "fst (copy_frame (state_df s) s)"
  have a: "?a = fresh s" and a1: "?a \<noteq> state_df ?s1" and w1: "state_df ?s1 < fresh ?s1"
    and k1: "store_kept s ?s1"
    using assms by (simp_all add: copy_frame_def new_object_def wf_session_def store_kept_def)
  have k: "store_kept ?s1 (snd (plot_frame parse sorter inp ?a ?s1))"
    by (rule plot_frame_keeps [OF w1 a1])
  have "snd (tab_plot parse sorter raises inp s) =
          (if empty_frame (objects ?s1 ?a) then ?s1 else snd (plot_frame parse sorter inp ?a ?s1))"
    by (simp add: tab_plot_def split_beta Let_def)
  then show ?thesis
    using k1 k by (simp add: store_kept_def)
qed

lemma views_keep_store:
  assumes "wf_session s"
  shows "store_kept s (snd (top_metrics parse show_ts mean rnd s))"
    and "store_kept s (snd (tab_plot parse sorter raises inp s))"
    and "store_kept s (snd (tab_export show_ts repr nl inp s))"
  using tab_plot_keeps [OF assms, of parse sorter raises inp]
  by (simp_all add: top_metrics_keeps tab_export_keeps store_kept_refl)

text \<open>
  C6. Computing a view leaves the Table Store as it was, but not every error is caught
  at the boundary of its view. A table whose last power cell is \<^verbatim>\<open>NaN\<close> (a row added in
  the editor with its power left empty): \<^verbatim>\<open>int(nan)\<close> on line 39 raises \<^verbatim>\<open>ValueError\<close>,
  no \<^verbatim>\<open>try\<close> of the metrics block catches it, and it ends the run, whatever the library
  calls and the widgets return. The store keeps the table through the failed metrics, as
  it does through the chart, which works on a copy and catches its own errors, and
  through the export.
\<close>

theorem metrics_error_not_caught:
  "fst (top_metrics parse show_ts mean rnd
     (data_editor_writeback
        [(''Date Time'', [StrC ''2024-03-09 07:04:59'', StrC ''2024-03-09 07:05:00'']),
         (''Power'', [FloatC (Fin 50), FloatC NaN])] s)) = Inl ValueError \<and>
   app_run L clock inp
     (data_editor_writeback
        [(''Date Time'', [StrC ''2024-03-09 07:04:59'', StrC ''2024-03-09 07:05:00'']),
         (''Power'', [FloatC (Fin 50), FloatC NaN])] s) =
   (Inl ValueError,
    data_editor_writeback
        [(''Date Time'', [StrC ''2024-03-09 07:04:59'', StrC ''2024-03-09 07:05:00'']),
         (''Power'', [FloatC (Fin 50), FloatC NaN])] s) \<and>
   table (snd (top_metrics parse show_ts mean rnd
     (data_editor_writeback
        [(''Date Time'', [StrC ''2024-03-09 07:04:59'', StrC ''2024-03-09 07:05:00'']),
         (''Power'', [FloatC (Fin 50), FloatC NaN])] s))) =
     [(''Date Time'', [StrC ''2024-03-09 07:04:59'', StrC ''2024-03-09 07:05:00'']),
      (''Power'', [FloatC (Fin 50), FloatC NaN])] \<and>
   table (snd (tab_plot parse sorter raises inp
     (data_editor_writeback
        [(''Date Time'', [StrC ''2024-03-09 07:04:59'', StrC ''2024-03-09 07:05:00'']),
         (''Power'', [FloatC (Fin 50), FloatC NaN])] s))) =
     [(''Date Time'', [StrC ''2024-03-09 07:04:59'', StrC ''2024-03-09 07:05:00'']),
      (''Power'', [FloatC (Fin 50), FloatC NaN])] \<and>
   table (snd (tab_export show_ts repr nl inp
     (data_editor_writeback
        [(''Date Time'', [StrC ''2024-03-09 07:04:59'', StrC ''2024-03-09 07:05:00'']),
         (''Power'', [FloatC (Fin 50), FloatC NaN])] s))) =
     [(''Date Time'', [StrC ''2024-03-09 07:04:59'', StrC ''2024-03-09 07:05:00'']),
      (''Power'', [FloatC (Fin 50), FloatC NaN])]"
proof -
  let ?d = "[(''Date Time'', [StrC ''2024-03-09 07:04:59'', StrC ''2024-03-09 07:05:00'']),
         (''Power'', [FloatC (Fin 50), FloatC NaN])]"
  let ?s = "data_editor_writeback ?d s"
  have w: "wf_session ?s" by (simp add: data_editor_writeback_def wf_assign_df)
  have t: "table ?s = ?d" by (simp add: data_editor_writeback_def table_assign_df)
  then have o: "objects ?s (state_df ?s) = ?d" by (simp add: table_def)
  have l: "latest_power_metric ?d = Inl ValueError"
    by (simp add: latest_power_metric_def empty_frame_def nrows_def getitem_def iloc_last_def
        then_do_def)
  have m: "top_metrics parse show_ts mean rnd ?s = (Inl ValueError, ?s)" for parse show_ts mean rnd
    by (simp add: top_metrics_def o l then_do_def)
  have r: "app_run L clock inp ?s = (Inl ValueError, ?s)"
    by (simp add: app_run_def m)
  have k: "table (snd (tab_plot parse sorter raises inp ?s)) = ?d"
    using store_kept_table [OF views_keep_store(2) [OF w, of parse sorter raises inp]] t by simp
  have x: "table (snd (tab_export show_ts repr nl inp ?s)) = ?d"
    by (simp add: tab_export_keeps t)
  show ?thesis
    using r k x t by (simp add: m)
qed

lemma csv_header:
  assumes "nl = [CHR 0x0A] \<or> nl = [CHR 0x0D, CHR 0x0A]"
  shows "csv_line nl [''Date Time'', ''Power''] = ''Date Time,Power'' @ nl"
  using assms by (auto simp: csv_line_def csv_field_def)

lemma csv_line_two:
  "csv_line nl [a, b] = csv_field nl a @ '','' @ csv_field nl b @ nl"
  by (simp add: csv_line_def)

lemma map_zip_nth:
  assumes "length c1 = length c2"
  shows "map (\<lambda>i. f (c1 ! i) (c2 ! i)) [0..<length c1] = map (\<lambda>(x, y). f x y) (zip c1 c2)"
  using assms by (intro nth_equalityI) simp_all

lemma to_csv_table:
  assumes "is_table d" and "nl = [CHR 0x0A] \<or> nl = [CHR 0x0D, CHR 0x0A]"
  shows "to_csv show_ts repr nl d =
           ''Date Time,Power'' @ nl @
           concat (map (\<lambda>(t, p). csv_field nl (cell_str show_ts repr t) @ '','' @
                                  csv_field nl (cell_str show_ts repr p) @ nl) (rows d))"
proof -
  from assms(1) obtain c1 c2 where d: "d = [(''Date Time'', c1), (''Power'', c2)]"
    and len: "length c1 = length c2"
    by (auto simp: is_table_iff)
  have r: "rows d = zip c1 c2" by (simp add: d rows_def column_or_nan_def)
  have "to_csv show_ts repr nl d =
          csv_line nl [''Date Time'', ''Power''] @
          concat (map (\<lambda>i. csv_field nl (cell_str show_ts repr (c1 ! i)) @ '','' @
                            csv_field nl (cell_str show_ts repr (c2 ! i)) @ nl) [0..<length c1])"
    by (simp add: to_csv_def d nrows_def csv_line_two)
  also have "map (\<lambda>i. csv_field nl (cell_str show_ts repr (c1 ! i)) @ '','' @
                            csv_field nl (cell_str show_ts repr (c2 ! i)) @ nl) [0..<length c1] =
             map (\<lambda>(t, p). csv_field nl (cell_str show_ts repr t) @ '','' @
                                  csv_field nl (cell_str show_ts repr p) @ nl) (zip c1 c2)"
    by (rule map_zip_nth [OF len])
  finally show ?thesis
    by (simp add: r csv_header [OF assms(2)])
qed

lemma decode_encode: "decode_utf8 (encode_utf8 s) = s"
  by (simp add: decode_utf8_def encode_utf8_def comp_def)

lemma int_str_50: "int_str 50 = ''50''"
  by (simp add: int_str_def nat_str2 digit_char_def)

lemma nl_chars:
  assumes "nl = [CHR 0x0A] \<or> nl = [CHR 0x0D, CHR 0x0A]" and "c \<in> set nl"
  shows "c = CHR 0x0D \<or> c = CHR 0x0A"
  using assms by (elim disjE) simp_all

lemma special_nl:
  assumes "nl = [CHR 0x0A] \<or> nl = [CHR 0x0D, CHR 0x0A]"
  shows "(c = CHR '','' \<or> c = CHR 0x22 \<or> c = CHR 0x0D \<or> c = CHR 0x0A \<or> c \<in> set nl) =
         (c = CHR '','' \<or> c = CHR 0x22 \<or> c = CHR 0x0D \<or> c = CHR 0x0A)"
  using nl_chars [OF assms, of c] by blast

lemma digit_not_special:
  assumes "is_digit c"
  shows "\<not> is_space c" and "c \<noteq> CHR ''-''" and "c \<noteq> CHR ''+''" and "c \<noteq> CHR ''_''"
  using assms by (auto simp: is_digit_def is_space_def)

lemma nat_str_digits: "list_all is_digit (nat_str k) \<and> nat_str k \<noteq> []"
proof (induction k rule: nat_str.induct)
  case (1 n)
  show ?case
  proof (cases "n < 10")
    case True
    then show ?thesis by (subst (1 2) nat_str.simps) (simp add: is_digit_digit_char)
  next
    case False
    with 1 have "list_all is_digit (nat_str (n div 10))" by simp
    with False show ?thesis by (subst (1 2) nat_str.simps) (simp add: is_digit_digit_char)
  qed
qed

lemma digits_value_digits:
  "list_all is_digit s \<Longrightarrow> digits_value acc s = Some (foldl (\<lambda>a c. 10 * a + digit_val c) acc s)"
  by (induction s arbitrary: acc) simp_all

lemma digits_value_nat_str: "digits_value 0 (nat_str k) = Some k"
  using digits_value_digits [of "nat_str k" 0] nat_str_digits [of k] digits_nat_nat_str [of k]
  by (simp add: digits_nat_def)

lemma strip_self:
  assumes "s \<noteq> []" and "\<not> is_space (hd s)" and "\<not> is_space (last s)"
  shows "strip s = s"
proof -
  have 1: "dropWhile is_space s = s"
    using assms(1,2) by (cases s) simp_all
  have "rev s \<noteq> []" and "\<not> is_space (hd (rev s))"
    using assms(1,3) by (simp_all add: hd_rev)
  then have "dropWhile is_space (rev s) = rev s"
    by (cases "rev s") simp_all
  then show ?thesis by (simp add: strip_def 1)
qed

lemma int_of_str_nat_str: "int_of_str (nat_str k) = Inr (int k)"
proof -
  obtain c r where s: "nat_str k = c # r"
    using nat_str_digits [of k] by (cases "nat_str k") auto
  have d: "is_digit c" "list_all is_digit r"
    using nat_str_digits [of k] by (simp_all add: s)
  have "is_digit (last (nat_str k))"
    using nat_str_digits [of k] by (simp add: list_all_iff)
  then have st: "strip (nat_str k) = c # r"
    using strip_self [of "nat_str k"] d(1) by (simp add: s digit_not_special)
  have v: "digits_value 0 (c # r) = Some k"
    using digits_value_nat_str [of k] by (simp only: s)
  show ?thesis
    unfolding int_of_str_def st Let_def using d(1) v
    by (simp add: digit_not_special del: digits_value.simps)
qed

lemma int_of_str_minus_nat_str: "int_of_str (''-'' @ nat_str k) = Inr (- int k)"
proof -
  obtain c r where s: "nat_str k = c # r"
    using nat_str_digits [of k] by (cases "nat_str k") auto
  have d: "is_digit c" "list_all is_digit r"
    using nat_str_digits [of k] by (simp_all add: s)
  have "is_digit (last (nat_str k))"
    using nat_str_digits [of k] by (simp add: list_all_iff)
  then have "\<not> is_space (last (''-'' @ nat_str k))"
    by (simp add: s digit_not_special)
  moreover have "\<not> is_space (hd (''-'' @ nat_str k))" by (simp add: is_space_def)
  ultimately have st: "strip (''-'' @ nat_str k) = CHR ''-'' # c # r"
    using strip_self [of "''-'' @ nat_str k"] by (simp add: s)
  have v: "digits_value 0 (c # r) = Some k"
    using digits_value_nat_str [of k] by (simp only: s)
  show ?thesis
    unfolding int_of_str_def st Let_def using d(1) v
    by (simp add: digit_not_special del: digits_value.simps)
qed

lemma int_of_str_int_str: "int_of_str (int_str n) = Inr n"
proof (cases "n < 0")
  case True
  then show ?thesis
    using int_of_str_minus_nat_str [of "nat (- n)"] by (simp add: int_str_def)
next
  case False
  then show ?thesis
    using int_of_str_nat_str [of "nat n"] by (simp add: int_str_def)
qed

lemma to_csv_lines:
  assumes "is_table d" and "nl = [CHR 0x0A] \<or> nl = [CHR 0x0D, CHR 0x0A]"
  shows "to_csv show_ts repr nl d =
           concat (map (\<lambda>l. l @ nl)
             (''Date Time,Power'' #
              map (\<lambda>(t, p). csv_field nl (cell_str show_ts repr t) @ '','' @
                             csv_field nl (cell_str show_ts repr p)) (rows d)))"
proof -
  have "concat (map (\<lambda>l. l @ nl) (map (\<lambda>(t, p). csv_field nl (cell_str show_ts repr t) @ '','' @
                             csv_field nl (cell_str show_ts repr p)) r)) =
        concat (map (\<lambda>(t, p). csv_field nl (cell_str show_ts repr t) @ '','' @
                                  csv_field nl (cell_str show_ts repr p) @ nl) r)" for r
    by (induction r) (simp_all add: split_beta)
  then show ?thesis
    by (simp add: to_csv_table [OF assms])
qed

lemma csv_field_rule:
  assumes "nl = [CHR 0x0A] \<or> nl = [CHR 0x0D, CHR 0x0A]"
  shows "csv_field nl f =
           (if list_ex (\<lambda>c. c = CHR '','' \<or> c = CHR 0x22 \<or> c = CHR 0x0D \<or> c = CHR 0x0A) f
            then [CHR 0x22] @ concat (map (\<lambda>c. if c = CHR 0x22 then [c, c] else [c]) f) @ [CHR 0x22]
            else f)"
  unfolding csv_field_def special_nl [OF assms] by simp

text \<open>
  C7. For every non-empty table the download holds the UTF-8 bytes of the CSV text: the
  line \<^verbatim>\<open>Date Time,Power\<close>, then one line for each row in the table's order, made of
  the two cells with a comma between them and nothing else (no index column). A text is
  written as it is, an integer in decimal (\<^verbatim>\<open>int\<close> reads it back), a float as \<^verbatim>\<open>repr\<close>
  prints it, a timestamp as \<^verbatim>\<open>str\<close> prints it, and a missing value as the empty field.
  A field with a comma, a double quote, a carriage return or a line feed is put in
  double quotes, its double quotes doubled; any other field is left as it is. Every line
  ends with \<^verbatim>\<open>os.linesep\<close>, the line feed or carriage return and line feed, so the table of
  one row \<^verbatim>\<open>(t1, 50)\<close> gives \<^verbatim>\<open>Date Time,Power\<close>, the terminator, \<^verbatim>\<open>t1,50\<close>, the terminator.
\<close>

theorem export_csv:
  assumes "is_table (table s)" and "\<not> empty_frame (table s)"
    and "nl = [CHR 0x0A] \<or> nl = [CHR 0x0D, CHR 0x0A]"
  shows "fst (tab_export show_ts repr nl inp s) =
           Download_button \<lparr>csv_bytes = encode_utf8 (to_csv show_ts repr nl (table s)),
             download_name = file_name inp, mime = ''text/csv''\<rparr> \<and>
         decode_utf8 (encode_utf8 (to_csv show_ts repr nl (table s))) = to_csv show_ts repr nl (table s) \<and>
         to_csv show_ts repr nl (table s) =
           concat (map (\<lambda>l. l @ nl)
             (''Date Time,Power'' #
              map (\<lambda>(t, p). csv_field nl (cell_str show_ts repr t) @ '','' @
                             csv_field nl (cell_str show_ts repr p)) (rows (table s)))) \<and>
         (\<forall>x. cell_str show_ts repr (StrC x) = x) \<and>
         (\<forall>n. cell_str show_ts repr (IntC n) = int_str n \<and> int_of_str (int_str n) = Inr n) \<and>
         (\<forall>q. cell_str show_ts repr (FloatC (Fin q)) = repr q) \<and>
         (\<forall>t. cell_str show_ts repr (TimeC t) = show_ts t) \<and>
         cell_str show_ts repr NoneC = [] \<and> cell_str show_ts repr (FloatC NaN) = [] \<and>
         cell_str show_ts repr NaTC = [] \<and>
         (\<forall>f. csv_field nl f =
            (if list_ex (\<lambda>c. c = CHR '','' \<or> c = CHR 0x22 \<or> c = CHR 0x0D \<or> c = CHR 0x0A) f
             then [CHR 0x22] @ concat (map (\<lambda>c. if c = CHR 0x22 then [c, c] else [c]) f) @ [CHR 0x22]
             else f)) \<and>
         (table s = [(''Date Time'', [StrC ''t1'']), (''Power'', [IntC 50])] \<longrightarrow>
            to_csv show_ts repr nl (table s) = ''Date Time,Power'' @ nl @ ''t1,50'' @ nl)"
proof -
  let ?text = "to_csv show_ts repr nl (table s)"
  have e: "fst (tab_export show_ts repr nl inp s) =
             Download_button \<lparr>csv_bytes = encode_utf8 ?text, download_name = file_name inp,
               mime = ''text/csv''\<rparr>"
    using assms(2) by (simp add: tab_export_def table_def)
  have d: "decode_utf8 (encode_utf8 ?text) = ?text"
    by (rule decode_encode)
  have t: "?text = concat (map (\<lambda>l. l @ nl)
             (''Date Time,Power'' #
              map (\<lambda>(t, p). csv_field nl (cell_str show_ts repr t) @ '','' @
                             csv_field nl (cell_str show_ts repr p)) (rows (table s))))"
    by (rule to_csv_lines [OF assms(1,3)])
  have c: "(\<forall>x. cell_str show_ts repr (StrC x) = x) \<and>
         (\<forall>n. cell_str show_ts repr (IntC n) = int_str n \<and> int_of_str (int_str n) = Inr n) \<and>
         (\<forall>q. cell_str show_ts repr (FloatC (Fin q)) = repr q) \<and>
         (\<forall>t. cell_str show_ts repr (TimeC t) = show_ts t) \<and>
         cell_str show_ts repr NoneC = [] \<and> cell_str show_ts repr (FloatC NaN) = [] \<and>
         cell_str show_ts repr NaTC = []"
    by (simp add: int_of_str_int_str)
  have q: "\<forall>f. csv_field nl f =
            (if list_ex (\<lambda>c. c = CHR '','' \<or> c = CHR 0x22 \<or> c = CHR 0x0D \<or> c = CHR 0x0A) f
             then [CHR 0x22] @ concat (map (\<lambda>c. if c = CHR 0x22 then [c, c] else [c]) f) @ [CHR 0x22]
             else f)"
    using csv_field_rule [OF assms(3)] by blast
  have x: "table s = [(''Date Time'', [StrC ''t1'']), (''Power'', [IntC 50])] \<longrightarrow>
            ?text = ''Date Time,Power'' @ nl @ ''t1,50'' @ nl"
  proof
    assume a: "table s = [(''Date Time'', [StrC ''t1'']), (''Power'', [IntC 50])]"
    show "?text = ''Date Time,Power'' @ nl @ ''t1,50'' @ nl"
      unfolding t unfolding a
      by (simp add: rows_def column_or_nan_def csv_field_rule [OF assms(3)] int_str_50)
  qed
  show ?thesis
    using e d t c q x by (intro conjI) blast+
qed

lemma repr_decimal_example: "repr_decimal (3 / 2) = ''1.5''"
  by code_simp

theorem export_csv_witness:
  "is_table (table (data_editor_writeback
     [(''Date Time'', [StrC ''a,b'', StrC (''say '' @ [CHR 0x22] @ ''hi'' @ [CHR 0x22]), StrC ''2024-03-09 07:05:00'']),
      (''Power'', [IntC 50, FloatC (Fin (3 / 2)), FloatC NaN])] initial_session)) \<and>
   \<not> empty_frame (table (data_editor_writeback
     [(''Date Time'', [StrC ''a,b'', StrC (''say '' @ [CHR 0x22] @ ''hi'' @ [CHR 0x22]), StrC ''2024-03-09 07:05:00'']),
      (''Power'', [IntC 50, FloatC (Fin (3 / 2)), FloatC NaN])] initial_session)) \<and>
   to_csv str_ymd_hms repr_decimal [CHR 0x0A] (table (data_editor_writeback
     [(''Date Time'', [StrC ''a,b'', StrC (''say '' @ [CHR 0x22] @ ''hi'' @ [CHR 0x22]), StrC ''2024-03-09 07:05:00'']),
      (''Power'', [IntC 50, FloatC (Fin (3 / 2)), FloatC NaN])] initial_session)) =
     ''Date Time,Power'' @ [CHR 0x0A] @
     [CHR 0x22] @ ''a,b'' @ [CHR 0x22] @ '',50'' @ [CHR 0x0A] @
     [CHR 0x22] @ ''say '' @ [CHR 0x22, CHR 0x22] @ ''hi'' @ [CHR 0x22, CHR 0x22] @ [CHR 0x22] @ '',1.5'' @ [CHR 0x0A] @
     ''2024-03-09 07:05:00,'' @ [CHR 0x0A]"
proof -
  let ?d = "[(''Date Time'', [StrC ''a,b'', StrC (''say '' @ [CHR 0x22] @ ''hi'' @ [CHR 0x22]), StrC ''2024-03-09 07:05:00'']),
      (''Power'', [IntC 50, FloatC (Fin (3 / 2)), FloatC NaN])]"
  let ?s = "data_editor_writeback ?d initial_session"
  have t: "table ?s = ?d" by (simp add: data_editor_writeback_def table_assign_df)
  have 1: "is_table (table ?s)" unfolding t by (simp add: is_table_def)
  have 2: "\<not> empty_frame (table ?s)" unfolding t by (simp add: empty_frame_def nrows_def)
  have 3: "[CHR 0x0A] = [CHR 0x0A] \<or> [CHR 0x0A] = [CHR 0x0D, CHR 0x0A]" by simp
  from export_csv [OF 1 2 3, of str_ymd_hms repr_decimal]
  have "to_csv str_ymd_hms repr_decimal [CHR 0x0A] (table ?s) =
           concat (map (\<lambda>l. l @ [CHR 0x0A])
             (''Date Time,Power'' #
              map (\<lambda>(t, p). csv_field [CHR 0x0A] (cell_str str_ymd_hms repr_decimal t) @ '','' @
                             csv_field [CHR 0x0A] (cell_str str_ymd_hms repr_decimal p)) (rows (table ?s))))"
    by blast
  also have "\<dots> = ''Date Time,Power'' @ [CHR 0x0A] @
     [CHR 0x22] @ ''a,b'' @ [CHR 0x22] @ '',50'' @ [CHR 0x0A] @
     [CHR 0x22] @ ''say '' @ [CHR 0x22, CHR 0x22] @ ''hi'' @ [CHR 0x22, CHR 0x22] @ [CHR 0x22] @ '',1.5'' @ [CHR 0x0A] @
     ''2024-03-09 07:05:00,'' @ [CHR 0x0A]"
    unfolding t
    by (simp add: rows_def column_or_nan_def csv_field_def int_str_50 repr_decimal_example)
  finally show ?thesis
    using 1 2 by (intro conjI)
qed

text \<open>
  C7 as stated fails for the exact text where \<^verbatim>\<open>os.linesep\<close> is carriage return and line
  feed (Windows): the table of one row \<^verbatim>\<open>(t1, 50)\<close> is exported as
  \<^verbatim>\<open>Date Time,Power\r\nt1,50\r\n\<close>, which is not \<^verbatim>\<open>Date Time,Power\nt1,50\n\<close>.
\<close>

theorem export_crlf_counterexample:
  "fst (tab_export str_ymd_hms repr_decimal [CHR 0x0D, CHR 0x0A] default_inputs
     (data_editor_writeback [(''Date Time'', [StrC ''t1'']), (''Power'', [IntC 50])] initial_session)) =
     Download_button
       \<lparr>csv_bytes = encode_utf8 (''Date Time,Power'' @ [CHR 0x0D, CHR 0x0A] @ ''t1,50'' @ [CHR 0x0D, CHR 0x0A]),
        download_name = ''power_data.csv'', mime = ''text/csv''\<rparr> \<and>
   decode_utf8 (encode_utf8 (''Date Time,Power'' @ [CHR 0x0D, CHR 0x0A] @ ''t1,50'' @ [CHR 0x0D, CHR 0x0A])) \<noteq>
     ''Date Time,Power'' @ [CHR 0x0A] @ ''t1,50'' @ [CHR 0x0A]"
proof -
  let ?d = "[(''Date Time'', [StrC ''t1'']), (''Power'', [IntC 50])]"
  let ?s = "data_editor_writeback ?d initial_session"
  have t: "objects ?s (state_df ?s) = ?d"
    using table_assign_df [of ?d initial_session] by (simp add: data_editor_writeback_def table_def)
  have c: "to_csv str_ymd_hms repr_decimal [CHR 0x0D, CHR 0x0A] ?d =
             ''Date Time,Power'' @ [CHR 0x0D, CHR 0x0A] @ ''t1,50'' @ [CHR 0x0D, CHR 0x0A]"
    by (simp add: to_csv_def nrows_def csv_line_def csv_field_def int_str_50)
  have "fst (tab_export str_ymd_hms repr_decimal [CHR 0x0D, CHR 0x0A] default_inputs ?s) =
     Download_button
       \<lparr>csv_bytes = encode_utf8 (''Date Time,Power'' @ [CHR 0x0D, CHR 0x0A] @ ''t1,50'' @ [CHR 0x0D, CHR 0x0A]),
        download_name = ''power_data.csv'', mime = ''text/csv''\<rparr>"
    by (simp add: tab_export_def t c empty_frame_def nrows_def default_inputs_def)
  moreover have "decode_utf8 (encode_utf8 (''Date Time,Power'' @ [CHR 0x0D, CHR 0x0A] @ ''t1,50'' @ [CHR 0x0D, CHR 0x0A])) \<noteq>
     ''Date Time,Power'' @ [CHR 0x0A] @ ''t1,50'' @ [CHR 0x0A]"
    by (simp add: decode_encode)
  ultimately show ?thesis by (rule conjI)
qed

subsection \<open>numpy's argsort returns a sorting permutation\<close>

text \<open>
  The insertion sort, the partition, the heapsort and the recursion over the segments
  are verified one after the other; \<open>aquicksort_correct\<close> is the result: for keys of a
  linear order, \<open>aquicksort\<close> returns a permutation of the positions that puts the keys
  in non-decreasing order.
\<close>

lemma length_swap: "length (swap i j a) = length a"
  by (simp add: swap_def)

lemma nth_swap:
  "i < length a \<Longrightarrow> j < length a \<Longrightarrow>
   swap i j a ! k = (if k = j then a ! i else if k = i then a ! j else a ! k)"
  by (simp add: swap_def nth_list_update)

lemma mset_swap_idx: "i < length a \<Longrightarrow> j < length a \<Longrightarrow> mset (swap i j a) = mset a"
  unfolding swap_def by (rule mset_swap)

lemma seg_perm_refl: "seg_perm pl pr a a"
  by (simp add: seg_perm_def)

lemma seg_perm_trans: "seg_perm pl pr a b \<Longrightarrow> seg_perm pl pr b c \<Longrightarrow> seg_perm pl pr a c"
  by (simp add: seg_perm_def)

lemma seg_perm_mono:
  "seg_perm pl' pr' a b \<Longrightarrow> pl \<le> pl' \<Longrightarrow> pr' \<le> pr \<Longrightarrow> seg_perm pl pr a b"
  by (auto simp: seg_perm_def)

lemma seg_perm_swap:
  "i < length a \<Longrightarrow> j < length a \<Longrightarrow> pl \<le> i \<Longrightarrow> i \<le> pr \<Longrightarrow> pl \<le> j \<Longrightarrow> j \<le> pr \<Longrightarrow>
   seg_perm pl pr a (swap i j a)"
  by (auto simp: seg_perm_def length_swap mset_swap_idx nth_swap)

lemma mset_segment:
  assumes "seg_perm pl pr a b" and "pl \<le> Suc pr"
  shows "mset (take (Suc pr - pl) (drop pl b)) = mset (take (Suc pr - pl) (drop pl a))"
proof -
  have len: "length b = length a" and ms: "mset b = mset a"
    and out: "\<And>k. k < length a \<Longrightarrow> k < pl \<or> pr < k \<Longrightarrow> b ! k = a ! k"
    using assms(1) by (auto simp: seg_perm_def)
  have t: "take pl b = take pl a"
    by (rule nth_equalityI) (simp_all add: len out)
  have d: "drop (Suc pr) b = drop (Suc pr) a"
    by (rule nth_equalityI) (simp_all add: len out)
  have split: "xs = take pl xs @ take (Suc pr - pl) (drop pl xs) @ drop (Suc pr) xs" for xs :: "nat list"
  proof -
    have "drop (Suc pr - pl) (drop pl xs) = drop (Suc pr) xs"
      using assms(2) by simp
    then have "drop pl xs = take (Suc pr - pl) (drop pl xs) @ drop (Suc pr) xs"
      by (metis append_take_drop_id)
    then show ?thesis
      by (metis append_take_drop_id)
  qed
  have "mset b = mset (take pl b) + mset (take (Suc pr - pl) (drop pl b)) + mset (drop (Suc pr) b)"
    by (subst split [of b]) simp
  moreover have "mset a = mset (take pl a) + mset (take (Suc pr - pl) (drop pl a)) + mset (drop (Suc pr) a)"
    by (subst split [of a]) simp
  ultimately show ?thesis
    using ms t d by simp
qed

lemma nth_segment:
  "pl \<le> k \<Longrightarrow> k \<le> pr \<Longrightarrow> pr < length a \<Longrightarrow> a ! k \<in> set (take (Suc pr - pl) (drop pl a))"
proof -
  assume a: "pl \<le> k" "k \<le> pr" "pr < length a"
  have "take (Suc pr - pl) (drop pl a) ! (k - pl) = a ! k"
    using a by simp
  moreover have "k - pl < length (take (Suc pr - pl) (drop pl a))"
    using a by simp
  ultimately show ?thesis
    by (metis nth_mem)
qed

lemma in_segment:
  assumes "x \<in> set (take (Suc pr - pl) (drop pl a))"
  shows "\<exists>k. pl \<le> k \<and> k \<le> pr \<and> k < length a \<and> x = a ! k"
proof -
  from assms obtain i where i: "i < length (take (Suc pr - pl) (drop pl a))"
    and x: "x = take (Suc pr - pl) (drop pl a) ! i"
    unfolding in_set_conv_nth by blast
  have i1: "i < Suc pr - pl" and i2: "i < length a - pl" using i by simp_all
  have "take (Suc pr - pl) (drop pl a) ! i = drop pl a ! i" using i1 by simp
  also have "\<dots> = a ! (pl + i)" using i2 by (intro nth_drop) simp
  finally have "x = a ! (pl + i)" using x by simp
  moreover have "pl + i \<le> pr" using i1 by simp
  moreover have "pl + i < length a" using i2 by simp
  ultimately have "pl \<le> pl + i \<and> pl + i \<le> pr \<and> pl + i < length a \<and> x = a ! (pl + i)" by simp
  then show ?thesis by (rule exI)
qed

lemma seg_perm_all:
  assumes "seg_perm pl pr a b" and "pr < length a"
    and "\<And>k. pl \<le> k \<Longrightarrow> k \<le> pr \<Longrightarrow> P (a ! k)"
    and "pl \<le> k" and "k \<le> pr"
  shows "P (b ! k)"
proof -
  have len: "length b = length a" using assms(1) by (simp add: seg_perm_def)
  have "pl \<le> Suc pr" using assms(4,5) by simp
  from mset_segment [OF assms(1) this]
  have "set (take (Suc pr - pl) (drop pl b)) = set (take (Suc pr - pl) (drop pl a))"
    by (rule mset_eq_setD)
  moreover have "b ! k \<in> set (take (Suc pr - pl) (drop pl b))"
    using assms(2,4,5) len by (intro nth_segment) simp_all
  ultimately have "b ! k \<in> set (take (Suc pr - pl) (drop pl a))" by simp
  from in_segment [OF this] obtain k' where "pl \<le> k'" "k' \<le> pr" "b ! k = a ! k'"
    by blast
  then show ?thesis using assms(3) by simp
qed

lemma ins_shift_props:
  "ins_shift lt v vp pl a jp = (a', jp') \<Longrightarrow> jp < length a \<Longrightarrow>
     length a' = length a \<and> jp' \<le> jp \<and> (pl \<le> jp \<longrightarrow> pl \<le> jp') \<and>
     (\<forall>k. k < length a \<and> (k \<le> jp' \<or> jp < k) \<longrightarrow> a' ! k = a ! k) \<and>
     (\<forall>k. jp' < k \<and> k \<le> jp \<longrightarrow> a' ! k = a ! (k - 1)) \<and>
     (\<forall>k. jp' \<le> k \<and> k < jp \<longrightarrow> lt vp (v ! (a ! k))) \<and>
     (jp' \<le> pl \<or> \<not> lt vp (v ! (a ! (jp' - 1))))"
proof (induction lt v vp pl a jp arbitrary: a' jp' rule: ins_shift.induct)
  case (1 lt v vp pl a jp)
  show ?case
  proof (cases "pl < jp \<and> lt vp (v ! (a ! (jp - 1)))")
    case True
    let ?a1 = "a[jp := a ! (jp - 1)]"
    from True "1.prems"(1) have r: "ins_shift lt v vp pl ?a1 (jp - 1) = (a', jp')"
      by (subst (asm) ins_shift.simps) simp
    have l: "jp - 1 < length ?a1" using "1.prems"(2) by simp
    from "1.IH" [OF True r l]
    have i0: "length a' = length a" and i1: "jp' \<le> jp - 1" and i2: "pl \<le> jp'"
      and i3: "\<And>k. k < length a \<Longrightarrow> k \<le> jp' \<or> jp - 1 < k \<Longrightarrow> a' ! k = ?a1 ! k"
      and i4: "\<And>k. jp' < k \<Longrightarrow> k \<le> jp - 1 \<Longrightarrow> a' ! k = ?a1 ! (k - 1)"
      and i5: "\<And>k. jp' \<le> k \<Longrightarrow> k < jp - 1 \<Longrightarrow> lt vp (v ! (?a1 ! k))"
      and i6: "jp' \<le> pl \<or> \<not> lt vp (v ! (?a1 ! (jp' - 1)))"
      using True by auto
    have jp: "0 < jp" using True by simp
    have g3: "a' ! k = a ! k" if "k < length a" "k \<le> jp' \<or> jp < k" for k
    proof -
      have "k \<noteq> jp" using that(2) i1 jp by auto
      moreover have "a' ! k = ?a1 ! k" using that i1 by (intro i3) auto
      ultimately show ?thesis by simp
    qed
    have g4: "a' ! k = a ! (k - 1)" if "jp' < k" "k \<le> jp" for k
    proof (cases "k = jp")
      case True
      then have "a' ! k = ?a1 ! k" using "1.prems"(2) jp by (intro i3) auto
      then show ?thesis using True "1.prems"(2) by simp
    next
      case False
      then have "a' ! k = ?a1 ! (k - 1)" using that by (intro i4) auto
      moreover have "k - 1 \<noteq> jp" using that False by auto
      ultimately show ?thesis by simp
    qed
    have g5: "lt vp (v ! (a ! k))" if "jp' \<le> k" "k < jp" for k
    proof (cases "k = jp - 1")
      case True
      then show ?thesis using \<open>pl < jp \<and> lt vp (v ! (a ! (jp - 1)))\<close> by simp
    next
      case False
      then have "lt vp (v ! (?a1 ! k))" using that by (intro i5) auto
      moreover have "k \<noteq> jp" using that by simp
      ultimately show ?thesis by simp
    qed
    have g6: "jp' \<le> pl \<or> \<not> lt vp (v ! (a ! (jp' - 1)))"
    proof -
      have "jp' - 1 \<noteq> jp" using i1 jp by auto
      then have "?a1 ! (jp' - 1) = a ! (jp' - 1)" by simp
      then show ?thesis using i6 by simp
    qed
    have g1: "jp' \<le> jp" using i1 by simp
    show ?thesis
      using i0 g1 i2 g3 g4 g5 g6 by blast
  next
    case False
    with "1.prems"(1) have "(a, jp) = (a', jp')"
      by (subst (asm) ins_shift.simps) (auto split: if_splits)
    then have "a' = a" "jp' = jp" by simp_all
    then show ?thesis using False by auto
  qed
qed

lemma ins_shift_mset:
  "ins_shift lt v vp pl a jp = (a', jp') \<Longrightarrow> jp < length a \<Longrightarrow>
   mset (a'[jp' := x]) = mset (a[jp := x])"
proof (induction lt v vp pl a jp arbitrary: a' jp' rule: ins_shift.induct)
  case (1 lt v vp pl a jp)
  show ?case
  proof (cases "pl < jp \<and> lt vp (v ! (a ! (jp - 1)))")
    case True
    let ?a1 = "a[jp := a ! (jp - 1)]"
    let ?c = "a[jp := x]"
    from True "1.prems"(1) have r: "ins_shift lt v vp pl ?a1 (jp - 1) = (a', jp')"
      by (subst (asm) ins_shift.simps) simp
    have l: "jp - 1 < length ?a1" using "1.prems"(2) by simp
    have jp: "jp - 1 \<noteq> jp" using True by auto
    have "mset (a'[jp' := x]) = mset (?a1[jp - 1 := x])"
      by (rule "1.IH" [OF True r l])
    also have "?a1[jp - 1 := x] = ?c[jp := ?c ! (jp - 1), jp - 1 := ?c ! jp]"
      using "1.prems"(2) jp by simp
    also have "mset \<dots> = mset ?c"
      using "1.prems"(2) by (intro mset_swap) simp_all
    finally show ?thesis .
  next
    case False
    with "1.prems"(1) have "(a, jp) = (a', jp')"
      by (subst (asm) ins_shift.simps) (auto split: if_splits)
    then show ?thesis by simp
  qed
qed

lemma ins_step_props:
  assumes "ip < length a" and "pl \<le> ip"
  shows "\<exists>jp. pl \<le> jp \<and> jp \<le> ip \<and>
           length (ins_step lt v pl ip a) = length a \<and>
           mset (ins_step lt v pl ip a) = mset a \<and>
           (\<forall>k. k < length a \<longrightarrow>
              ins_step lt v pl ip a ! k =
                (if k < jp then a ! k else if k = jp then a ! ip
                 else if k \<le> ip then a ! (k - 1) else a ! k)) \<and>
           (\<forall>k. jp \<le> k \<and> k < ip \<longrightarrow> lt (v ! (a ! ip)) (v ! (a ! k))) \<and>
           (jp \<le> pl \<or> \<not> lt (v ! (a ! ip)) (v ! (a ! (jp - 1))))"
proof -
  obtain a' jp where r: "ins_shift lt v (v ! (a ! ip)) pl a ip = (a', jp)"
    by (cases "ins_shift lt v (v ! (a ! ip)) pl a ip")
  have b: "ins_step lt v pl ip a = a'[jp := a ! ip]"
    by (simp add: ins_step_def r)
  from ins_shift_props [OF r assms(1)] assms(2)
  have p0: "length a' = length a" and p1: "jp \<le> ip" and p2: "pl \<le> jp"
    and p3: "\<And>k. k < length a \<Longrightarrow> k \<le> jp \<or> ip < k \<Longrightarrow> a' ! k = a ! k"
    and p4: "\<And>k. jp < k \<Longrightarrow> k \<le> ip \<Longrightarrow> a' ! k = a ! (k - 1)"
    and p5: "\<And>k. jp \<le> k \<Longrightarrow> k < ip \<Longrightarrow> lt (v ! (a ! ip)) (v ! (a ! k))"
    and p6: "jp \<le> pl \<or> \<not> lt (v ! (a ! ip)) (v ! (a ! (jp - 1)))"
    by auto
  have m: "mset (a'[jp := a ! ip]) = mset a"
    using ins_shift_mset [OF r assms(1), of "a ! ip"] by simp
  have n: "a'[jp := a ! ip] ! k =
             (if k < jp then a ! k else if k = jp then a ! ip
              else if k \<le> ip then a ! (k - 1) else a ! k)" if "k < length a" for k
  proof -
    consider "k < jp" | "k = jp" | "jp < k" "k \<le> ip" | "ip < k" using p1 by linarith
    then show ?thesis
    proof cases
      case 1
      then show ?thesis using p3 [of k] that by simp
    next
      case 2
      then show ?thesis using that p0 by simp
    next
      case 3
      then show ?thesis using p4 [of k] by simp
    next
      case 4
      then show ?thesis using p3 [of k] that p1 by simp
    qed
  qed
  show ?thesis
    unfolding b using p2 p1 p0 m n p5 p6 by (intro exI [of _ jp]) simp
qed

lemma ins_step_perm:
  assumes "ip < length a" and "pl \<le> ip"
  shows "seg_perm pl ip a (ins_step lt v pl ip a)"
proof -
  from ins_step_props [OF assms, of lt v] obtain jp where
    "pl \<le> jp" "jp \<le> ip" "length (ins_step lt v pl ip a) = length a"
    "mset (ins_step lt v pl ip a) = mset a"
    and n: "\<And>k. k < length a \<Longrightarrow> ins_step lt v pl ip a ! k =
                (if k < jp then a ! k else if k = jp then a ! ip
                 else if k \<le> ip then a ! (k - 1) else a ! k)"
    by blast
  then show ?thesis
    unfolding seg_perm_def by auto
qed

lemma ins_step_sorted:
  fixes v :: "('k::linorder) list"
  assumes "ip < length a" and "pl < ip" and "seg_sorted v a pl (ip - 1)"
  shows "seg_sorted v (ins_step (<) v pl ip a) pl ip"
proof -
  have "pl \<le> ip" using assms(2) by simp
  from ins_step_props [OF assms(1) this, of "(<)" v] obtain jp where
    j1: "pl \<le> jp" and j2: "jp \<le> ip"
    and n: "\<And>k. k < length a \<Longrightarrow> ins_step (<) v pl ip a ! k =
                (if k < jp then a ! k else if k = jp then a ! ip
                 else if k \<le> ip then a ! (k - 1) else a ! k)"
    and gt: "\<And>k. jp \<le> k \<Longrightarrow> k < ip \<Longrightarrow> v ! (a ! ip) < v ! (a ! k)"
    and stop: "jp \<le> pl \<or> \<not> v ! (a ! ip) < v ! (a ! (jp - 1))"
    by blast
  have s: "v ! (a ! i) \<le> v ! (a ! j)" if "pl \<le> i" "i \<le> j" "j \<le> ip - 1" for i j
    using assms(3) that by (simp add: seg_sorted_def)
  let ?b = "ins_step (<) v pl ip a"
  have "v ! (?b ! i) \<le> v ! (?b ! j)" if ij: "pl \<le> i" "i \<le> j" "j \<le> ip" for i j
  proof -
    have li: "i < length a" and lj: "j < length a" using ij assms(1) by simp_all
    have low: "v ! (a ! i) \<le> v ! (a ! ip)" if "i < jp"
    proof -
      have "\<not> jp \<le> pl" using that ij(1) by simp
      with stop have "v ! (a ! (jp - 1)) \<le> v ! (a ! ip)" by simp
      moreover have "v ! (a ! i) \<le> v ! (a ! (jp - 1))"
        using that ij(1) j2 by (intro s) simp_all
      ultimately show ?thesis by simp
    qed
    consider "j < jp" | "i < jp" "j = jp" | "i < jp" "jp < j" | "i = jp" "j = jp"
      | "i = jp" "jp < j" | "jp < i"
      using ij(2) by linarith
    then show ?thesis
    proof cases
      case 1
      then have "?b ! i = a ! i" "?b ! j = a ! j" using n [OF li] n [OF lj] ij(2) by simp_all
      moreover have "v ! (a ! i) \<le> v ! (a ! j)" using 1 ij j2 by (intro s) simp_all
      ultimately show ?thesis by simp
    next
      case 2
      then have "?b ! i = a ! i" "?b ! j = a ! ip" using n [OF li] n [OF lj] by simp_all
      then show ?thesis using low [OF 2(1)] by simp
    next
      case 3
      then have "?b ! i = a ! i" "?b ! j = a ! (j - 1)" using n [OF li] n [OF lj] ij(3) by simp_all
      moreover have "v ! (a ! i) \<le> v ! (a ! (j - 1))" using 3 ij by (intro s) simp_all
      ultimately show ?thesis by simp
    next
      case 4
      then show ?thesis by simp
    next
      case 5
      then have "?b ! i = a ! ip" "?b ! j = a ! (j - 1)" using n [OF li] n [OF lj] ij(3) by simp_all
      moreover have "v ! (a ! ip) < v ! (a ! (j - 1))" using 5 ij(3) by (intro gt) simp_all
      ultimately show ?thesis by simp
    next
      case 6
      then have "?b ! i = a ! (i - 1)" "?b ! j = a ! (j - 1)"
        using n [OF li] n [OF lj] ij(2,3) by simp_all
      moreover have "v ! (a ! (i - 1)) \<le> v ! (a ! (j - 1))" using 6 ij j1 by (intro s) simp_all
      ultimately show ?thesis by simp
    qed
  qed
  then show ?thesis by (simp add: seg_sorted_def)
qed

lemma insertion_sort_correct:
  fixes v :: "('k::linorder) list"
  shows "pr < length a \<Longrightarrow>
         seg_perm pl pr a (insertion_sort (<) v a pl pr) \<and>
         seg_sorted v (insertion_sort (<) v a pl pr) pl pr"
proof (induction pr)
  case 0
  then show ?case by (simp add: insertion_sort_def seg_perm_refl seg_sorted_def)
next
  case (Suc pr)
  show ?case
  proof (cases "pl \<le> pr")
    case True
    let ?b = "insertion_sort (<) v a pl pr"
    have e: "insertion_sort (<) v a pl (Suc pr) = ins_step (<) v pl (Suc pr) ?b"
      using True by (simp add: insertion_sort_def)
    from Suc have p: "seg_perm pl pr a ?b" and s: "seg_sorted v ?b pl pr" by simp_all
    have l: "length ?b = length a" using p by (simp add: seg_perm_def)
    have l1: "Suc pr < length ?b" using Suc.prems l by simp
    have "seg_perm pl (Suc pr) ?b (ins_step (<) v pl (Suc pr) ?b)"
      using l1 True by (intro ins_step_perm) simp_all
    moreover have "seg_perm pl (Suc pr) a ?b"
      using p by (rule seg_perm_mono) simp_all
    ultimately have "seg_perm pl (Suc pr) a (ins_step (<) v pl (Suc pr) ?b)"
      using seg_perm_trans by blast
    moreover have "seg_sorted v (ins_step (<) v pl (Suc pr) ?b) pl (Suc pr)"
      using l1 True s by (intro ins_step_sorted) simp_all
    ultimately show ?thesis by (simp add: e)
  next
    case False
    then have "[Suc pl..<Suc (Suc pr)] = []" by simp
    then have "insertion_sort (<) v a pl (Suc pr) = a" by (simp add: insertion_sort_def)
    moreover have "seg_sorted v a pl (Suc pr)"
      unfolding seg_sorted_def
    proof (intro allI impI)
      fix i j assume "pl \<le> i \<and> i \<le> j \<and> j \<le> Suc pr"
      with False have "i = j" by simp
      then show "v ! (a ! i) \<le> v ! (a ! j)" by simp
    qed
    ultimately show ?thesis by (simp add: seg_perm_refl)
  qed
qed

lemma scan_up_props:
  "i \<le> scan_up lt v a vp i \<and>
   (\<forall>k. i \<le> k \<and> k < scan_up lt v a vp i \<longrightarrow> k < length a \<and> lt (v ! (a ! k)) vp) \<and>
   (scan_up lt v a vp i < length a \<longrightarrow> \<not> lt (v ! (a ! scan_up lt v a vp i)) vp)"
proof (induction lt v a vp i rule: scan_up.induct)
  case (1 lt v a vp i)
  show ?case
  proof (cases "i < length a \<and> lt (v ! (a ! i)) vp")
    case True
    then have e: "scan_up lt v a vp i = scan_up lt v a vp (Suc i)"
      by (subst scan_up.simps) simp
    from "1.IH" [OF True]
    have h1: "Suc i \<le> scan_up lt v a vp (Suc i)"
      and h2: "\<And>k. Suc i \<le> k \<Longrightarrow> k < scan_up lt v a vp (Suc i) \<Longrightarrow> k < length a \<and> lt (v ! (a ! k)) vp"
      and h3: "scan_up lt v a vp (Suc i) < length a \<longrightarrow> \<not> lt (v ! (a ! scan_up lt v a vp (Suc i))) vp"
      by auto
    have "k < length a \<and> lt (v ! (a ! k)) vp" if "i \<le> k" "k < scan_up lt v a vp (Suc i)" for k
    proof (cases "k = i")
      case True
      then show ?thesis using \<open>i < length a \<and> lt (v ! (a ! i)) vp\<close> by simp
    next
      case False
      then show ?thesis using that by (intro h2) simp_all
    qed
    then show ?thesis unfolding e using h1 h3 by auto
  next
    case False
    then have e: "scan_up lt v a vp i = i"
      by (subst scan_up.simps) auto
    show ?thesis unfolding e using False by auto
  qed
qed

lemma scan_up_bound:
  assumes "i \<le> m" and "m < length a" and "\<not> lt (v ! (a ! m)) vp"
  shows "scan_up lt v a vp i \<le> m"
proof (rule ccontr)
  assume "\<not> scan_up lt v a vp i \<le> m"
  then have "m < scan_up lt v a vp i" by simp
  with scan_up_props [of i lt v a vp] assms(1) have "lt (v ! (a ! m)) vp" by blast
  with assms(3) show False by simp
qed

lemma scan_down_props:
  "scan_down lt v a vp j \<le> j \<and>
   (\<forall>k. scan_down lt v a vp j < k \<and> k \<le> j \<longrightarrow> lt vp (v ! (a ! k))) \<and>
   (0 < scan_down lt v a vp j \<longrightarrow> \<not> lt vp (v ! (a ! scan_down lt v a vp j)))"
proof (induction lt v a vp j rule: scan_down.induct)
  case (1 lt v a vp j)
  show ?case
  proof (cases "0 < j \<and> lt vp (v ! (a ! j))")
    case True
    then have e: "scan_down lt v a vp j = scan_down lt v a vp (j - 1)"
      by (subst scan_down.simps) simp
    from "1.IH" [OF True]
    have h1: "scan_down lt v a vp (j - 1) \<le> j - 1"
      and h2: "\<And>k. scan_down lt v a vp (j - 1) < k \<Longrightarrow> k \<le> j - 1 \<Longrightarrow> lt vp (v ! (a ! k))"
      and h3: "0 < scan_down lt v a vp (j - 1) \<longrightarrow> \<not> lt vp (v ! (a ! scan_down lt v a vp (j - 1)))"
      by auto
    have "lt vp (v ! (a ! k))" if "scan_down lt v a vp (j - 1) < k" "k \<le> j" for k
    proof (cases "k = j")
      case True
      then show ?thesis using \<open>0 < j \<and> lt vp (v ! (a ! j))\<close> by simp
    next
      case False
      then show ?thesis using that by (intro h2) simp_all
    qed
    then show ?thesis unfolding e using h1 h3 by auto
  next
    case False
    then have e: "scan_down lt v a vp j = j"
      by (subst scan_down.simps) auto
    show ?thesis unfolding e using False by auto
  qed
qed

lemma scan_down_bound:
  assumes "m \<le> j" and "\<not> lt vp (v ! (a ! m))"
  shows "m \<le> scan_down lt v a vp j"
proof (rule ccontr)
  assume "\<not> m \<le> scan_down lt v a vp j"
  then have "scan_down lt v a vp j < m" by simp
  with scan_down_props [of lt v a vp j] assms(1) have "lt vp (v ! (a ! m))" by blast
  with assms(2) show False by simp
qed

lemma part_loop_props:
  fixes v :: "('k::linorder) list"
  shows "lt = (<) \<Longrightarrow> part_loop lt v vp a i j = (a', ip) \<Longrightarrow> i < j \<Longrightarrow> j < length a \<Longrightarrow>
     v ! (a ! i) \<le> vp \<Longrightarrow> vp \<le> v ! (a ! j) \<Longrightarrow>
     length a' = length a \<and> mset a' = mset a \<and>
     (\<forall>k. k < length a \<and> (k \<le> i \<or> j \<le> k) \<longrightarrow> a' ! k = a ! k) \<and>
     i < ip \<and> ip \<le> j \<and>
     (\<forall>k. i < k \<and> k < ip \<longrightarrow> v ! (a' ! k) \<le> vp) \<and>
     (\<forall>k. ip \<le> k \<and> k < j \<longrightarrow> vp \<le> v ! (a' ! k))"
proof (induction lt v vp a i j arbitrary: a' ip rule: part_loop.induct)
  case (1 lt v vp a i j)
  note lt = "1.prems"(1)
  define si where "si = scan_up lt v a vp (Suc i)"
  define sj where "sj = scan_down lt v a vp (j - 1)"
  have u1: "Suc i \<le> si"
    and u2: "\<And>k. Suc i \<le> k \<Longrightarrow> k < si \<Longrightarrow> v ! (a ! k) < vp"
    and u3: "si < length a \<Longrightarrow> vp \<le> v ! (a ! si)"
    using scan_up_props [of "Suc i" lt v a vp] unfolding si_def by (auto simp: lt)
  have u4: "si \<le> j"
    unfolding si_def using "1.prems"(3,4,6) by (intro scan_up_bound) (simp_all add: lt)
  have d1: "sj \<le> j - 1"
    and d2: "\<And>k. sj < k \<Longrightarrow> k \<le> j - 1 \<Longrightarrow> vp < v ! (a ! k)"
    and d3: "0 < sj \<Longrightarrow> v ! (a ! sj) \<le> vp"
    using scan_down_props [of lt v a vp "j - 1"] unfolding sj_def by (auto simp: lt)
  have d4: "i \<le> sj"
    unfolding sj_def using "1.prems"(3,5) by (intro scan_down_bound) (simp_all add: lt)
  have d5: "v ! (a ! sj) \<le> vp"
  proof (cases "0 < sj")
    case True
    then show ?thesis by (rule d3)
  next
    case False
    then have "i = sj" using d4 by simp
    then show ?thesis using "1.prems"(5) by simp
  qed
  have il: "si < length a" using u4 "1.prems"(4) by simp
  have jl: "sj < length a" using d1 "1.prems"(3,4) by simp
  show ?case
  proof (cases "sj \<le> si")
    case True
    with "1.prems"(2) have "(a, si) = (a', ip)"
      by (subst (asm) part_loop.simps) (auto simp: si_def sj_def)
    then have e: "a' = a" "ip = si" by auto
    have "v ! (a ! k) \<le> vp" if "i < k" "k < si" for k
      using u2 [of k] that by simp
    moreover have "vp \<le> v ! (a ! k)" if "si \<le> k" "k < j" for k
    proof (cases "k = si")
      case True
      then show ?thesis using u3 [OF il] by simp
    next
      case False
      then have "vp < v ! (a ! k)" using that True by (intro d2) simp_all
      then show ?thesis by simp
    qed
    ultimately show ?thesis
      unfolding e using u1 u4 by auto
  next
    case False
    let ?a1 = "swap si sj a"
    from False "1.prems"(2) have r: "part_loop lt v vp ?a1 si sj = (a', ip)"
      by (subst (asm) part_loop.simps) (simp add: si_def sj_def)
    have ij: "si < sj" using False by simp
    have n1: "?a1 ! k = (if k = sj then a ! si else if k = si then a ! sj else a ! k)" for k
      using il jl by (rule nth_swap)
    have c1: "sj < length ?a1" using jl by (simp add: length_swap)
    have c2: "v ! (?a1 ! si) \<le> vp" using d5 ij by (simp add: n1)
    have c3: "vp \<le> v ! (?a1 ! sj)" using u3 [OF il] by (simp add: n1)
    from "1.IH" [OF False [unfolded si_def sj_def] lt r [unfolded si_def sj_def]
        ij [unfolded si_def sj_def] c1 [unfolded si_def sj_def] c2 [unfolded si_def sj_def]
        c3 [unfolded si_def sj_def], folded si_def sj_def]
    have h0: "length a' = length a" and h1: "mset a' = mset a"
      and h2: "\<And>k. k < length a \<Longrightarrow> k \<le> si \<or> sj \<le> k \<Longrightarrow> a' ! k = ?a1 ! k"
      and h3: "si < ip" and h4: "ip \<le> sj"
      and h5: "\<And>k. si < k \<Longrightarrow> k < ip \<Longrightarrow> v ! (a' ! k) \<le> vp"
      and h6: "\<And>k. ip \<le> k \<Longrightarrow> k < sj \<Longrightarrow> vp \<le> v ! (a' ! k)"
      using il jl by (auto simp: length_swap mset_swap_idx)
    have g2: "a' ! k = a ! k" if "k < length a" "k \<le> i \<or> j \<le> k" for k
    proof -
      have "k \<noteq> si" "k \<noteq> sj" using that(2) u1 d1 ij "1.prems"(3) by auto
      moreover have "a' ! k = ?a1 ! k" using that u1 d1 ij by (intro h2) auto
      ultimately show ?thesis by (simp add: n1)
    qed
    have g5: "v ! (a' ! k) \<le> vp" if "i < k" "k < ip" for k
    proof -
      consider "k < si" | "k = si" | "si < k" by linarith
      then show ?thesis
      proof cases
        case 1
        then have "a' ! k = ?a1 ! k" using il by (intro h2) simp_all
        then have "a' ! k = a ! k" using 1 ij by (simp add: n1)
        moreover have "v ! (a ! k) < vp" using 1 that by (intro u2) simp_all
        ultimately show ?thesis by simp
      next
        case 2
        then have "a' ! k = ?a1 ! k" using il by (intro h2) simp_all
        then have "a' ! k = a ! sj" using 2 ij by (simp add: n1)
        then show ?thesis using d5 by simp
      next
        case 3
        then show ?thesis using that by (intro h5)
      qed
    qed
    have g6: "vp \<le> v ! (a' ! k)" if "ip \<le> k" "k < j" for k
    proof -
      consider "k < sj" | "k = sj" | "sj < k" by linarith
      then show ?thesis
      proof cases
        case 1
        then show ?thesis using that by (intro h6)
      next
        case 2
        then have "a' ! k = ?a1 ! k" using jl by (intro h2) simp_all
        then have "a' ! k = a ! si" using 2 by (simp add: n1)
        then show ?thesis using u3 [OF il] by simp
      next
        case 3
        have kl: "k < length a" using that "1.prems"(4) by simp
        have "a' ! k = ?a1 ! k" using 3 kl by (intro h2) simp_all
        then have "a' ! k = a ! k" using 3 ij by (simp add: n1)
        moreover have "vp < v ! (a ! k)" using 3 that by (intro d2) simp_all
        ultimately show ?thesis by simp
      qed
    qed
    have "i < ip" using u1 h3 by simp
    moreover have "ip \<le> j" using h4 d1 by simp
    ultimately show ?thesis
      using h0 h1 g2 g5 g6 by blast
  qed
qed

lemma cond_swap_perm:
  assumes "i < length a" and "j < length a" and "pl \<le> i" and "i \<le> pr" and "pl \<le> j" and "j \<le> pr"
  shows "seg_perm pl pr a (if c then swap i j a else a)"
  using seg_perm_swap [OF assms] by (simp add: seg_perm_refl)

lemma qs_partition_props:
  fixes v :: "('k::linorder) list"
  assumes "qs_partition (<) v a pl pr = (a', ip)" and "16 < pr - pl" and "pr < length a"
  shows "seg_perm pl pr a a' \<and> pl < ip \<and> ip < pr \<and>
         (\<forall>k. pl \<le> k \<and> k < ip \<longrightarrow> v ! (a' ! k) \<le> v ! (a' ! ip)) \<and>
         (\<forall>k. ip < k \<and> k \<le> pr \<longrightarrow> v ! (a' ! ip) \<le> v ! (a' ! k))"
proof -
  define pm where "pm = pl + (pr - pl) div 2"
  define pq where "pq = pr - 1"
  define a1 where "a1 = (if v ! (a ! pm) < v ! (a ! pl) then swap pm pl a else a)"
  define a2 where "a2 = (if v ! (a1 ! pr) < v ! (a1 ! pm) then swap pr pm a1 else a1)"
  define a3 where "a3 = (if v ! (a2 ! pm) < v ! (a2 ! pl) then swap pm pl a2 else a2)"
  define vp where "vp = v ! (a3 ! pm)"
  define a4 where "a4 = swap pm pq a3"
  have b: "pl < pm" "pm < pq" "pq < pr" "pl < pq"
    using assms(2) by (simp_all add: pm_def pq_def)
  have bl: "pl < length a" "pm < length a" "pq < length a"
    using b assms(3) by simp_all
  have p1: "seg_perm pl pr a a1"
    unfolding a1_def using b bl assms(3) by (intro cond_swap_perm) simp_all
  have l1: "length a1 = length a" using p1 by (simp add: seg_perm_def)
  have p2: "seg_perm pl pr a1 a2"
    unfolding a2_def using b bl assms(3) l1 by (intro cond_swap_perm) simp_all
  have l2: "length a2 = length a" using p2 l1 by (simp add: seg_perm_def)
  have p3: "seg_perm pl pr a2 a3"
    unfolding a3_def using b bl assms(3) l2 by (intro cond_swap_perm) simp_all
  have l3: "length a3 = length a" using p3 l2 by (simp add: seg_perm_def)
  have p4: "seg_perm pl pr a3 a4"
    unfolding a4_def using b bl assms(3) l3 by (intro seg_perm_swap) simp_all
  have l4: "length a4 = length a" using p4 l3 by (simp add: seg_perm_def)
  have k1: "v ! (a1 ! pl) \<le> v ! (a1 ! pm)"
    using b bl by (auto simp: a1_def nth_swap)
  have k2: "v ! (a2 ! pm) \<le> v ! (a2 ! pr)" "v ! (a2 ! pl) \<le> v ! (a2 ! pr)"
    using k1 b bl assms(3) l1 by (auto simp: a2_def nth_swap)
  have k3: "v ! (a3 ! pl) \<le> v ! (a3 ! pm)" "v ! (a3 ! pm) \<le> v ! (a3 ! pr)"
    using k2 b bl assms(3) l2 by (auto simp: a3_def nth_swap)
  have n4: "a4 ! k = (if k = pq then a3 ! pm else if k = pm then a3 ! pq else a3 ! k)" for k
    unfolding a4_def using bl l3 by (intro nth_swap) simp_all
  have k4: "v ! (a4 ! pl) \<le> vp" "v ! (a4 ! pq) = vp" "vp \<le> v ! (a4 ! pr)"
    using k3 b by (simp_all add: n4 vp_def)
  obtain a5 ip5 where r: "part_loop (<) v vp a4 pl pq = (a5, ip5)"
    by (cases "part_loop (<) v vp a4 pl pq")
  have "qs_partition (<) v a pl pr =
          (case part_loop (<) v vp a4 pl pq of (a5, ip) \<Rightarrow> (swap ip pq a5, ip))"
    unfolding qs_partition_def Let_def a4_def vp_def a3_def a2_def a1_def pm_def pq_def
    by (rule refl)
  with assms(1) r have res: "a' = swap ip5 pq a5" "ip = ip5" by auto
  have "pq < length a4" using bl l4 by simp
  moreover have "vp \<le> v ! (a4 ! pq)" using k4(2) by simp
  ultimately have
    h0: "length a5 = length a" and h1: "mset a5 = mset a4"
    and h2: "\<And>k. k < length a \<Longrightarrow> k \<le> pl \<or> pq \<le> k \<Longrightarrow> a5 ! k = a4 ! k"
    and h3: "pl < ip5" and h4: "ip5 \<le> pq"
    and h5: "\<And>k. pl < k \<Longrightarrow> k < ip5 \<Longrightarrow> v ! (a5 ! k) \<le> vp"
    and h6: "\<And>k. ip5 \<le> k \<Longrightarrow> k < pq \<Longrightarrow> vp \<le> v ! (a5 ! k)"
    using part_loop_props [OF refl r b(4) _ k4(1)] l4 by auto
  have p5: "seg_perm pl pr a4 a5"
    unfolding seg_perm_def using h0 h1 h2 l4 b by auto
  have il: "ip5 < length a5" "pq < length a5" using h4 bl h0 by simp_all
  have p6: "seg_perm pl pr a5 a'"
    unfolding res using il h3 h4 b by (intro seg_perm_swap) simp_all
  have n6: "a' ! k = (if k = pq then a5 ! ip5 else if k = ip5 then a5 ! pq else a5 ! k)" for k
    unfolding res using il by (intro nth_swap)
  have e1: "a5 ! pl = a4 ! pl" "a5 ! pq = a4 ! pq" "a5 ! pr = a4 ! pr"
    using b bl assms(3) by (simp_all add: h2)
  have piv: "v ! (a' ! ip5) = vp"
    using k4(2) by (simp add: n6 e1)
  have lo: "v ! (a' ! k) \<le> vp" if "pl \<le> k" "k < ip5" for k
  proof (cases "k = pl")
    case True
    then show ?thesis using h3 h4 b k4(1) by (simp add: n6 e1)
  next
    case False
    then have "v ! (a5 ! k) \<le> vp" using that by (intro h5) simp_all
    then show ?thesis using that h4 by (simp add: n6)
  qed
  have hi: "vp \<le> v ! (a' ! k)" if "ip5 < k" "k \<le> pr" for k
  proof -
    have "k < pq \<or> k = pq \<or> k = pr" using that(2) by (auto simp: pq_def)
    then consider "k < pq" | "k = pq" | "k = pr" by blast
    then show ?thesis
    proof cases
      case 1
      then have "vp \<le> v ! (a5 ! k)" using that by (intro h6) simp_all
      then show ?thesis using 1 that by (simp add: n6)
    next
      case 2
      then have "vp \<le> v ! (a5 ! ip5)" using that by (intro h6) simp_all
      then show ?thesis using 2 by (simp add: n6)
    next
      case 3
      then show ?thesis using b h4 k4(3) by (simp add: n6 e1)
    qed
  qed
  have "seg_perm pl pr a a'"
    using p1 p2 p3 p4 p5 p6 seg_perm_trans by blast
  moreover have "ip5 < pr" using h4 b by simp
  ultimately show ?thesis
    unfolding res(2) using h3 lo hi piv by simp
qed

lemma sift_unfold:
  fixes v :: "('k::linorder) list"
  assumes "1 \<le> i"
  shows "sift (<) v base n tmp a i (2 * i) =
     (if 2 * i \<le> n then
        (if v ! tmp < heap_key v base a
              (if 2 * i < n \<and> heap_key v base a (2 * i) < heap_key v base a (2 * i + 1) then 2 * i + 1 else 2 * i)
         then sift (<) v base n tmp
                (a[base + i - 1 := a ! (base +
                    (if 2 * i < n \<and> heap_key v base a (2 * i) < heap_key v base a (2 * i + 1) then 2 * i + 1 else 2 * i) - 1)])
                (if 2 * i < n \<and> heap_key v base a (2 * i) < heap_key v base a (2 * i + 1) then 2 * i + 1 else 2 * i)
                (2 * (if 2 * i < n \<and> heap_key v base a (2 * i) < heap_key v base a (2 * i + 1) then 2 * i + 1 else 2 * i))
         else (a, i))
      else (a, i))"
  using assms by (subst sift.simps) (simp add: heap_key_def Let_def)

lemma heap_key_update:
  assumes "1 \<le> h" and "1 \<le> i" and "base + i - 1 < length a"
  shows "heap_key v base (a[base + i - 1 := x]) h = (if h = i then v ! x else heap_key v base a h)"
proof (cases "h = i")
  case True
  then show ?thesis using assms(3) by (simp add: heap_key_def)
next
  case False
  then have "base + i - 1 \<noteq> base + h - 1" using assms(1,2) by arith
  then show ?thesis using False by (simp add: heap_key_def)
qed

lemma heap_fill:
  fixes v :: "('k::linorder) list"
  assumes l: "1 \<le> l" "l \<le> i" and len: "base + i - 1 < length a"
    and others: "\<And>h. l \<le> h \<Longrightarrow> h \<le> n \<Longrightarrow> h \<noteq> i \<Longrightarrow> heap_node v base n a h"
    and above: "i = l \<or> v ! tmp < heap_key v base a i"
    and c1: "2 * i \<le> n \<Longrightarrow> heap_key v base a (2 * i) \<le> v ! tmp"
    and c2: "2 * i + 1 \<le> n \<Longrightarrow> heap_key v base a (2 * i + 1) \<le> v ! tmp"
    and h: "l \<le> h" "h \<le> n"
  shows "heap_node v base n (a[base + i - 1 := tmp]) h"
proof -
  have i1: "1 \<le> i" and h1: "1 \<le> h" using l h by simp_all
  define b where "b = a[base + i - 1 := tmp]"
  have k: "heap_key v base b g = (if g = i then v ! tmp else heap_key v base a g)"
    if "1 \<le> g" for g
    unfolding b_def using that i1 len by (rule heap_key_update)
  have "heap_node v base n b h"
  proof (cases "h = i")
    case True
    have "2 * i \<noteq> i" "2 * i + 1 \<noteq> i" using i1 by simp_all
    then show ?thesis
      unfolding heap_node_def True using c1 c2 i1 by (simp add: k)
  next
    case False
    have n: "heap_node v base n a h" using h False by (rule others)
    have a1: "heap_key v base b (2 * h) \<le> heap_key v base a h" if "2 * h \<le> n"
    proof (cases "2 * h = i")
      case True
      then have "i \<noteq> l" using h(1) h1 by simp
      then have "v ! tmp < heap_key v base a i" using above by simp
      moreover have "heap_key v base a i \<le> heap_key v base a h"
        using n that True by (simp add: heap_node_def)
      ultimately show ?thesis using True h1 by (simp add: k)
    next
      case False
      then show ?thesis using n that h1 by (simp add: k heap_node_def)
    qed
    have a2: "heap_key v base b (2 * h + 1) \<le> heap_key v base a h" if "2 * h + 1 \<le> n"
    proof (cases "2 * h + 1 = i")
      case True
      then have "i \<noteq> l" using h(1) h1 by simp
      then have "v ! tmp < heap_key v base a i" using above by simp
      moreover have "heap_key v base a i \<le> heap_key v base a h"
        using n that True by (simp add: heap_node_def)
      ultimately show ?thesis using True h1 by (simp add: k)
    next
      case False
      then show ?thesis using n that h1 by (simp add: k heap_node_def)
    qed
    show ?thesis
      unfolding heap_node_def using a1 a2 False h1 by (simp add: k)
  qed
  then show ?thesis by (simp only: b_def)
qed

lemma heap_move:
  fixes v :: "('k::linorder) list"
  assumes l: "1 \<le> l" "l \<le> i" and len: "base + i - 1 < length a"
    and others: "\<And>h. l \<le> h \<Longrightarrow> h \<le> n \<Longrightarrow> h \<noteq> i \<Longrightarrow> heap_node v base n a h"
    and above: "i = l \<or> (heap_node v base n a i \<and> v ! tmp < heap_key v base a i)"
    and c: "c = 2 * i \<or> c = 2 * i + 1" "c \<le> n"
    and c1: "2 * i \<le> n \<Longrightarrow> heap_key v base a (2 * i) \<le> heap_key v base a c"
    and c2: "2 * i + 1 \<le> n \<Longrightarrow> heap_key v base a (2 * i + 1) \<le> heap_key v base a c"
    and h: "l \<le> h" "h \<le> n"
  shows "heap_node v base n (a[base + i - 1 := a ! (base + c - 1)]) h"
proof -
  have i1: "1 \<le> i" and h1: "1 \<le> h" using l h by simp_all
  define b where "b = a[base + i - 1 := a ! (base + c - 1)]"
  have k: "heap_key v base b g = (if g = i then heap_key v base a c else heap_key v base a g)"
    if "1 \<le> g" for g
    unfolding b_def heap_key_update [OF that i1 len] by (simp add: heap_key_def)
  have "heap_node v base n b h"
  proof (cases "h = i")
    case True
    have "2 * i \<noteq> i" "2 * i + 1 \<noteq> i" using i1 by simp_all
    then show ?thesis
      unfolding heap_node_def True using c1 c2 i1 by (simp add: k)
  next
    case False
    have n: "heap_node v base n a h" using h False by (rule others)
    have ci: "i \<le> n" using c i1 by auto
    have up: "heap_key v base a c \<le> heap_key v base a i" if "i \<noteq> l"
    proof -
      have "heap_node v base n a i" using above that by simp
      then show ?thesis using c by (auto simp: heap_node_def)
    qed
    have a1: "heap_key v base b (2 * h) \<le> heap_key v base a h"
      if "2 * h \<le> n"
    proof (cases "2 * h = i")
      case True
      then have "i \<noteq> l" using h(1) h1 by simp
      then have "heap_key v base a c \<le> heap_key v base a i" by (rule up)
      moreover have "heap_key v base a i \<le> heap_key v base a h"
        using n that True by (simp add: heap_node_def)
      ultimately show ?thesis using True h1 by (simp add: k)
    next
      case False
      then show ?thesis using n that h1 by (simp add: k heap_node_def)
    qed
    have a2: "heap_key v base b (2 * h + 1) \<le> heap_key v base a h"
      if "2 * h + 1 \<le> n"
    proof (cases "2 * h + 1 = i")
      case True
      then have "i \<noteq> l" using h(1) h1 by simp
      then have "heap_key v base a c \<le> heap_key v base a i" by (rule up)
      moreover have "heap_key v base a i \<le> heap_key v base a h"
        using n that True by (simp add: heap_node_def)
      ultimately show ?thesis using True h1 by (simp add: k)
    next
      case False
      then show ?thesis using n that h1 by (simp add: k heap_node_def)
    qed
    show ?thesis
      unfolding heap_node_def using a1 a2 False h1 by (simp add: k)
  qed
  then show ?thesis by (simp only: b_def)
qed

lemma mset_move_hole:
  assumes "p < length a" and "q < length a" and "p \<noteq> q"
  shows "mset (a[p := a ! q, q := x]) = mset (a[p := x])"
proof -
  let ?c = "a[p := x]"
  have "a[p := a ! q, q := x] = ?c[q := ?c ! p, p := ?c ! q]"
    using assms by (simp add: list_update_swap [of q p])
  moreover have "mset (?c[q := ?c ! p, p := ?c ! q]) = mset ?c"
    using assms by (intro mset_swap) simp_all
  ultimately show ?thesis by simp
qed

lemma sift_props:
  fixes v :: "('k::linorder) list"
  assumes "sift (<) v base n tmp a i (2 * i) = (a', i')"
    and "1 \<le> l" and "l \<le> i" and "i \<le> n" and "base + n \<le> length a"
    and "\<And>h. l \<le> h \<Longrightarrow> h \<le> n \<Longrightarrow> h \<noteq> i \<Longrightarrow> heap_node v base n a h"
    and "i = l \<or> (heap_node v base n a i \<and> v ! tmp < heap_key v base a i)"
  shows "length a' = length a \<and> i \<le> i' \<and> i' \<le> n \<and>
         (\<forall>k. k < length a \<and> (k < base + i - 1 \<or> base + n \<le> k) \<longrightarrow> a' ! k = a ! k) \<and>
         (\<forall>x. mset (a'[base + i' - 1 := x]) = mset (a[base + i - 1 := x])) \<and>
         (\<forall>h. l \<le> h \<and> h \<le> n \<longrightarrow> heap_node v base n (a'[base + i' - 1 := tmp]) h)"
  using assms
proof (induction "n - i" arbitrary: a i rule: less_induct)
  case less
  note r = less.prems(1) and l1 = less.prems(2) and li = less.prems(3) and i_n = less.prems(4)
    and len = less.prems(5) and others = less.prems(6) and above = less.prems(7)
  define c where "c = (if 2 * i < n \<and> heap_key v base a (2 * i) < heap_key v base a (2 * i + 1)
                       then 2 * i + 1 else 2 * i)"
  define p where "p = base + i - 1"
  define q where "q = base + c - 1"
  have i1: "1 \<le> i" using l1 li by simp
  have pl: "p < length a" using i1 i_n len by (simp add: p_def)
  have u: "sift (<) v base n tmp a i (2 * i) =
     (if 2 * i \<le> n then
        (if v ! tmp < heap_key v base a c
         then sift (<) v base n tmp (a[p := a ! q]) c (2 * c)
         else (a, i))
      else (a, i))"
    unfolding c_def p_def q_def by (rule sift_unfold [OF i1])
  have above': "i = l \<or> v ! tmp < heap_key v base a i" using above by blast
  have same: "length a = length a \<and> i \<le> i \<and> i \<le> n \<and>
         (\<forall>k. k < length a \<and> (k < p \<or> base + n \<le> k) \<longrightarrow> a ! k = a ! k) \<and>
         (\<forall>x. mset (a[p := x]) = mset (a[p := x]))"
    using i_n by simp
  consider (leaf) "\<not> 2 * i \<le> n" | (stop) "2 * i \<le> n" "\<not> v ! tmp < heap_key v base a c"
    | (move) "2 * i \<le> n" "v ! tmp < heap_key v base a c"
    by blast
  then have "length a' = length a \<and> i \<le> i' \<and> i' \<le> n \<and>
         (\<forall>k. k < length a \<and> (k < p \<or> base + n \<le> k) \<longrightarrow> a' ! k = a ! k) \<and>
         (\<forall>x. mset (a'[base + i' - 1 := x]) = mset (a[p := x])) \<and>
         (\<forall>h. l \<le> h \<and> h \<le> n \<longrightarrow> heap_node v base n (a'[base + i' - 1 := tmp]) h)"
  proof cases
    case leaf
    with r u have e: "a' = a" "i' = i" by auto
    have "heap_node v base n (a[base + i - 1 := tmp]) h" if "l \<le> h" "h \<le> n" for h
      using l1 li pl [unfolded p_def] others above' _ _ that
      by (rule heap_fill) (use leaf in simp_all)
    then show ?thesis
      unfolding e using same by (simp add: p_def)
  next
    case stop
    with r u have e: "a' = a" "i' = i" by auto
    have c1: "heap_key v base a (2 * i) \<le> heap_key v base a c"
      by (auto simp: c_def)
    have c2: "heap_key v base a (2 * i + 1) \<le> heap_key v base a c" if "2 * i + 1 \<le> n"
      using that by (auto simp: c_def)
    have t: "heap_key v base a c \<le> v ! tmp" using stop(2) by simp
    have "heap_node v base n (a[base + i - 1 := tmp]) h" if "l \<le> h" "h \<le> n" for h
      using l1 li pl [unfolded p_def] others above' _ _ that
    proof (rule heap_fill)
      show "heap_key v base a (2 * i) \<le> v ! tmp" using c1 t by simp
      show "heap_key v base a (2 * i + 1) \<le> v ! tmp" if "2 * i + 1 \<le> n"
        using c2 [OF that] t by simp
    qed
    then show ?thesis
      unfolding e using same by (simp add: p_def)
  next
    case move
    let ?a1 = "a[p := a ! q]"
    from r u move have r1: "sift (<) v base n tmp ?a1 c (2 * c) = (a', i')" by simp
    have cc: "c = 2 * i \<or> c = 2 * i + 1" by (simp add: c_def)
    have cn: "c \<le> n" using move(1) by (simp add: c_def)
    have ic: "i < c" using cc i1 by auto
    have c1: "heap_key v base a (2 * i) \<le> heap_key v base a c"
      by (auto simp: c_def)
    have c2: "heap_key v base a (2 * i + 1) \<le> heap_key v base a c" if "2 * i + 1 \<le> n"
      using that by (auto simp: c_def)
    have pq: "p < q" using ic i1 by (simp add: p_def q_def)
    have ql: "q < length a" using cn ic len by (simp add: q_def)
    have hm: "heap_node v base n ?a1 h" if "l \<le> h" "h \<le> n" for h
      unfolding p_def q_def
      using l1 li pl [unfolded p_def] others above cc cn c1 c2 that
      by (rule heap_move)
    have "?a1 ! q = a ! q" using pq by simp
    then have kc: "heap_key v base ?a1 c = heap_key v base a c"
      unfolding heap_key_def q_def by simp
    have m: "n - c < n - i" using ic cn by simp
    have lc: "l \<le> c" using li ic by simp
    have len1: "base + n \<le> length ?a1" using len by simp
    have ab1: "c = l \<or> (heap_node v base n ?a1 c \<and> v ! tmp < heap_key v base ?a1 c)"
      using hm [OF lc cn] move(2) kc by simp
    from less.hyps [OF m r1 l1 lc cn len1 hm ab1]
    have h0: "length a' = length a" and h1: "c \<le> i'" and h2: "i' \<le> n"
      and h3: "\<And>k. k < length a \<Longrightarrow> k < q \<or> base + n \<le> k \<Longrightarrow> a' ! k = ?a1 ! k"
      and h4: "\<And>x. mset (a'[base + i' - 1 := x]) = mset (?a1[q := x])"
      and h5: "\<And>h. l \<le> h \<Longrightarrow> h \<le> n \<Longrightarrow> heap_node v base n (a'[base + i' - 1 := tmp]) h"
      by (simp_all add: q_def)
    have g3: "a' ! k = a ! k" if "k < length a" "k < p \<or> base + n \<le> k" for k
    proof -
      have "p < base + n" using i1 i_n by (simp add: p_def)
      then have "k \<noteq> p" using that(2) by auto
      moreover have "a' ! k = ?a1 ! k" using that pq by (intro h3) auto
      ultimately show ?thesis by simp
    qed
    have g4: "mset (a'[base + i' - 1 := x]) = mset (a[p := x])" for x
      using h4 [of x] mset_move_hole [OF pl ql, of x] pq by simp
    have "i \<le> i'" using ic h1 by simp
    then show ?thesis
      using h0 h2 g3 g4 h5 by blast
  qed
  then show ?case unfolding p_def .
qed

lemma heap_place_props:
  fixes v :: "('k::linorder) list"
  assumes "1 \<le> l" and "l \<le> n" and "base + n \<le> length a"
    and "\<And>h. l < h \<Longrightarrow> h \<le> n \<Longrightarrow> heap_node v base n a h"
  shows "seg_perm base (base + n - 1) a (heap_place (<) v base n l a) \<and>
         (\<forall>h. l \<le> h \<and> h \<le> n \<longrightarrow> heap_node v base n (heap_place (<) v base n l a) h)"
proof -
  define tmp where "tmp = a ! (base + l - 1)"
  obtain a' i' where r: "sift (<) v base n tmp a l (2 * l) = (a', i')"
    by (cases "sift (<) v base n tmp a l (2 * l)")
  define b where "b = a'[base + i' - 1 := tmp]"
  have e: "heap_place (<) v base n l a = b"
    unfolding heap_place_def Let_def tmp_def [symmetric] r b_def by simp
  have others: "heap_node v base n a h" if "l \<le> h" "h \<le> n" "h \<noteq> l" for h
    using that assms(4) [of h] by simp
  from sift_props [OF r assms(1) order_refl assms(2,3) others]
  have h0: "length a' = length a" and h1: "l \<le> i'" and h2: "i' \<le> n"
    and h3: "\<And>k. k < length a \<Longrightarrow> k < base + l - 1 \<or> base + n \<le> k \<Longrightarrow> a' ! k = a ! k"
    and h4: "mset b = mset (a[base + l - 1 := tmp])"
    and h5: "\<And>h. l \<le> h \<Longrightarrow> h \<le> n \<Longrightarrow> heap_node v base n b h"
    unfolding b_def by auto
  have "mset b = mset a" using h4 by (simp add: tmp_def)
  moreover have "length b = length a" using h0 by (simp add: b_def)
  moreover have "b ! k = a ! k" if "k < length a" "k < base \<or> base + n - 1 < k" for k
  proof -
    have "base \<le> base + i' - 1" "base + i' - 1 < base + n"
      using h1 h2 assms(1) by simp_all
    then have "k \<noteq> base + i' - 1" using that(2) by auto
    then have "b ! k = a' ! k" by (simp add: b_def)
    also have "\<dots> = a ! k" using that assms(1) by (intro h3) auto
    finally show ?thesis .
  qed
  ultimately have "seg_perm base (base + n - 1) a b"
    by (simp add: seg_perm_def)
  then show ?thesis unfolding e using h5 by simp
qed

lemma build_heap:
  fixes v :: "('k::linorder) list"
  shows "base + n \<le> length a \<Longrightarrow> k \<le> n \<Longrightarrow>
     (\<And>h. k < h \<Longrightarrow> h \<le> n \<Longrightarrow> heap_node v base n a h) \<Longrightarrow>
     seg_perm base (base + n - 1) a (fold (heap_place (<) v base n) (rev [1..<Suc k]) a) \<and>
     (\<forall>h. 1 \<le> h \<and> h \<le> n \<longrightarrow>
        heap_node v base n (fold (heap_place (<) v base n) (rev [1..<Suc k]) a) h)"
proof (induction k arbitrary: a)
  case 0
  then show ?case by (simp add: seg_perm_refl)
next
  case (Suc k)
  let ?a1 = "heap_place (<) v base n (Suc k) a"
  have "1 \<le> Suc k" by simp
  from heap_place_props [OF this Suc.prems(2,1) Suc.prems(3)]
  have p: "seg_perm base (base + n - 1) a ?a1"
    and hn: "\<And>h. Suc k \<le> h \<Longrightarrow> h \<le> n \<Longrightarrow> heap_node v base n ?a1 h"
    by auto
  have l1: "base + n \<le> length ?a1" using p Suc.prems(1) by (simp add: seg_perm_def)
  have kn: "k \<le> n" using Suc.prems(2) by simp
  have hn': "heap_node v base n ?a1 h" if "k < h" "h \<le> n" for h
    using that by (intro hn) simp_all
  from Suc.IH [OF l1 kn hn']
  have q: "seg_perm base (base + n - 1) ?a1 (fold (heap_place (<) v base n) (rev [1..<Suc k]) ?a1)"
    and hh: "\<forall>h. 1 \<le> h \<and> h \<le> n \<longrightarrow>
        heap_node v base n (fold (heap_place (<) v base n) (rev [1..<Suc k]) ?a1) h"
    by auto
  have f: "fold (heap_place (<) v base n) (rev [1..<Suc (Suc k)]) a =
           fold (heap_place (<) v base n) (rev [1..<Suc k]) ?a1"
    by simp
  show ?case
    unfolding f using seg_perm_trans [OF p q] hh by simp
qed

lemma heap_root_max:
  fixes v :: "('k::linorder) list"
  assumes "\<And>h. 1 \<le> h \<Longrightarrow> h \<le> m \<Longrightarrow> heap_node v base m a h"
  shows "1 \<le> h \<Longrightarrow> h \<le> m \<Longrightarrow> heap_key v base a h \<le> heap_key v base a 1"
proof (induction h rule: less_induct)
  case (less h)
  show ?case
  proof (cases "h = 1")
    case True
    then show ?thesis by simp
  next
    case False
    define p where "p = h div 2"
    have p: "1 \<le> p" "p < h" "p \<le> m" "h = 2 * p \<or> h = 2 * p + 1"
      using False less.prems by (auto simp: p_def)
    have "heap_node v base m a p" using p by (intro assms) simp_all
    then have "heap_key v base a h \<le> heap_key v base a p"
      using p(4) less.prems(2) by (auto simp: heap_node_def)
    moreover have "heap_key v base a p \<le> heap_key v base a 1"
      using p by (intro less.IH) simp_all
    ultimately show ?thesis by simp
  qed
qed

lemma heap_pop_props:
  fixes v :: "('k::linorder) list"
  assumes "2 \<le> m" and "base + m \<le> length a"
    and "\<And>h. 1 \<le> h \<Longrightarrow> h \<le> m \<Longrightarrow> heap_node v base m a h"
  shows "seg_perm base (base + m - 1) a (heap_pop (<) v base m a) \<and>
         heap_pop (<) v base m a ! (base + m - 1) = a ! base \<and>
         (\<forall>h. 1 \<le> h \<and> h \<le> m - 1 \<longrightarrow> heap_node v base (m - 1) (heap_pop (<) v base m a) h)"
proof -
  define pm where "pm = base + m - 1"
  define tmp where "tmp = a ! pm"
  define a1 where "a1 = a[pm := a ! base]"
  obtain a2 i' where r: "sift (<) v base (m - 1) tmp a1 1 (2 * 1) = (a2, i')"
    by (cases "sift (<) v base (m - 1) tmp a1 1 (2 * 1)")
  define b where "b = a2[base + i' - 1 := tmp]"
  have r': "sift (<) v base (m - 1) tmp a1 1 2 = (a2, i')" using r by simp
  have e: "heap_pop (<) v base m a = b"
    unfolding heap_pop_def Let_def pm_def [symmetric] tmp_def [symmetric] a1_def [symmetric] r' b_def
    by simp
  have pm: "base < pm" "pm < length a" "pm = base + (m - 1)"
    using assms(1,2) by (simp_all add: pm_def)
  have l1: "base + (m - 1) \<le> length a1" using assms(2) by (simp add: a1_def)
  have key1: "heap_key v base a1 g = heap_key v base a g" if "1 \<le> g" "g \<le> m - 1" for g
  proof -
    have "base + g - 1 \<noteq> pm" using that assms(1) by (simp add: pm_def)
    then show ?thesis by (simp add: heap_key_def a1_def)
  qed
  have others: "heap_node v base (m - 1) a1 h" if "1 \<le> h" "h \<le> m - 1" "h \<noteq> 1" for h
  proof -
    have "heap_node v base m a h" using that by (intro assms(3)) simp_all
    then show ?thesis
      unfolding heap_node_def using that by (simp add: key1)
  qed
  have m1: "1 \<le> m - 1" using assms(1) by simp
  from sift_props [OF r order_refl order_refl m1 l1 others]
  have h0: "length a2 = length a" and h2: "i' \<le> m - 1" and h1: "1 \<le> i'"
    and h3: "\<And>k. k < length a \<Longrightarrow> k < base \<or> pm \<le> k \<Longrightarrow> a2 ! k = a1 ! k"
    and h4: "mset b = mset (a1[base := tmp])"
    and h5: "\<And>h. 1 \<le> h \<Longrightarrow> h \<le> m - 1 \<Longrightarrow> heap_node v base (m - 1) b h"
    unfolding b_def by (auto simp: a1_def pm(3))
  have pi: "base \<le> base + i' - 1" "base + i' - 1 < pm"
    using h1 h2 assms(1) by (simp_all add: pm_def)
  have "a1[base := tmp] = a[pm := a ! base, base := a ! pm]"
    by (simp add: a1_def tmp_def)
  moreover have "mset (a[pm := a ! base, base := a ! pm]) = mset a"
    using pm by (intro mset_swap) simp_all
  ultimately have "mset b = mset a" using h4 by simp
  moreover have "length b = length a" using h0 by (simp add: b_def)
  moreover have "b ! k = a ! k" if "k < length a" "k < base \<or> pm < k" for k
  proof -
    have "k \<noteq> base + i' - 1" using that(2) pi by auto
    then have "b ! k = a2 ! k" by (simp add: b_def)
    also have "\<dots> = a1 ! k" using that by (intro h3) auto
    also have "\<dots> = a ! k" using that(2) pm(1) by (auto simp: a1_def)
    finally show ?thesis .
  qed
  ultimately have sp: "seg_perm base pm a b"
    by (simp add: seg_perm_def)
  have "b ! pm = a2 ! pm" using pi by (simp add: b_def)
  also have "\<dots> = a1 ! pm" using pm(2) by (intro h3) simp_all
  also have "\<dots> = a ! base" using pm(2) by (simp add: a1_def)
  finally have top: "b ! pm = a ! base" .
  show ?thesis
    unfolding e pm_def [symmetric] using sp top h5 by simp
qed

lemma heap_key_pos: "base \<le> k \<Longrightarrow> v ! (a ! k) = heap_key v base a (k - base + 1)"
  by (simp add: heap_key_def)

lemma pop_phase:
  fixes v :: "('k::linorder) list"
  shows "base + n \<le> length a \<Longrightarrow> m \<le> n \<Longrightarrow>
     (\<And>h. 1 \<le> h \<Longrightarrow> h \<le> m \<Longrightarrow> heap_node v base m a h) \<Longrightarrow>
     (\<And>h h'. 1 \<le> h \<Longrightarrow> h \<le> m \<Longrightarrow> m < h' \<Longrightarrow> h' \<le> n \<Longrightarrow>
        heap_key v base a h \<le> heap_key v base a h') \<Longrightarrow>
     (\<And>h h'. m < h \<Longrightarrow> h \<le> h' \<Longrightarrow> h' \<le> n \<Longrightarrow>
        heap_key v base a h \<le> heap_key v base a h') \<Longrightarrow>
     seg_perm base (base + n - 1) a (fold (heap_pop (<) v base) (rev [2..<Suc m]) a) \<and>
     (\<forall>h h'. 1 \<le> h \<and> h \<le> h' \<and> h' \<le> n \<longrightarrow>
        heap_key v base (fold (heap_pop (<) v base) (rev [2..<Suc m]) a) h
          \<le> heap_key v base (fold (heap_pop (<) v base) (rev [2..<Suc m]) a) h')"
proof (induction m arbitrary: a)
  case 0
  have "heap_key v base a h \<le> heap_key v base a h'" if "1 \<le> h" "h \<le> h'" "h' \<le> n" for h h'
    using that by (intro "0.prems"(5)) simp_all
  then show ?case by (simp add: seg_perm_refl)
next
  case (Suc m)
  note len = Suc.prems(1) and mn = Suc.prems(2) and heap = Suc.prems(3)
    and below = Suc.prems(4) and sorted = Suc.prems(5)
  show ?case
  proof (cases "m = 0")
    case True
    have "heap_key v base a h \<le> heap_key v base a h'" if "1 \<le> h" "h \<le> h'" "h' \<le> n" for h h'
    proof -
      have "h = h' \<or> (h = 1 \<and> 1 < h') \<or> 1 < h" using that(1,2) by linarith
      then consider "h = h'" | "h = 1" "1 < h'" | "1 < h" by blast
      then show ?thesis
      proof cases
        case 1
        then show ?thesis by simp
      next
        case 2
        then show ?thesis using that True by (intro below) simp_all
      next
        case 3
        then show ?thesis using that True by (intro sorted) simp_all
      qed
    qed
    then show ?thesis using True by (simp add: seg_perm_refl)
  next
    case False
    define a1 where "a1 = heap_pop (<) v base (Suc m) a"
    define top where "top = base + m"
    have m2: "2 \<le> Suc m" using False by simp
    have lm: "base + Suc m \<le> length a" using len mn by simp
    from heap_pop_props [OF m2 lm heap]
    have p: "seg_perm base top a a1" and t: "a1 ! top = a ! base"
      and hp: "\<And>h. 1 \<le> h \<Longrightarrow> h \<le> m \<Longrightarrow> heap_node v base m a1 h"
      by (simp_all add: a1_def top_def)
    have l1: "length a1 = length a" using p by (simp add: seg_perm_def)
    have tl: "top < length a" using lm by (simp add: top_def)
    have out: "a1 ! k = a ! k" if "k < length a" "top < k" for k
      using p that by (simp add: seg_perm_def)
    have ktop: "heap_key v base a1 (Suc m) = heap_key v base a 1"
      using t by (simp add: heap_key_def top_def)
    have kout: "heap_key v base a1 h = heap_key v base a h" if "Suc m < h" "h \<le> n" for h
    proof -
      have "base + h - 1 < length a" "top < base + h - 1" using that len by (simp_all add: top_def)
      then show ?thesis unfolding heap_key_def by (simp add: out)
    qed
    have kin: "\<exists>g. 1 \<le> g \<and> g \<le> Suc m \<and> heap_key v base a1 h = heap_key v base a g"
      if "1 \<le> h" "h \<le> Suc m" for h
    proof -
      have "\<exists>g. 1 \<le> g \<and> g \<le> Suc m \<and> a1 ! (base + h - 1) = a ! (base + g - 1)"
      proof (rule seg_perm_all [OF p tl, where P = "\<lambda>x. \<exists>g. 1 \<le> g \<and> g \<le> Suc m \<and> x = a ! (base + g - 1)"])
        show "base \<le> base + h - 1" "base + h - 1 \<le> top" using that by (simp_all add: top_def)
        fix k assume k: "base \<le> k" "k \<le> top"
        have "1 \<le> k - base + 1 \<and> k - base + 1 \<le> Suc m \<and> a ! k = a ! (base + (k - base + 1) - 1)"
          using k by (simp add: top_def)
        then show "\<exists>g. 1 \<le> g \<and> g \<le> Suc m \<and> a ! k = a ! (base + g - 1)" by (rule exI)
      qed
      then show ?thesis unfolding heap_key_def by metis
    qed
    have max: "heap_key v base a g \<le> heap_key v base a 1" if "1 \<le> g" "g \<le> Suc m" for g
      using heap that by (rule heap_root_max)
    have below1: "heap_key v base a1 h \<le> heap_key v base a1 h'"
      if "1 \<le> h" "h \<le> m" "m < h'" "h' \<le> n" for h h'
    proof -
      have "h \<le> Suc m" using that(2) by simp
      from kin [OF that(1) this] obtain g where g: "1 \<le> g" "g \<le> Suc m"
        and e: "heap_key v base a1 h = heap_key v base a g" by blast
      show ?thesis
      proof (cases "h' = Suc m")
        case True
        show ?thesis unfolding True ktop e using g by (rule max)
      next
        case False
        then have h': "Suc m < h'" using that(3) by simp
        show ?thesis unfolding kout [OF h' that(4)] e using g h' that(4) by (intro below) simp_all
      qed
    qed
    have sorted1: "heap_key v base a1 h \<le> heap_key v base a1 h'"
      if "m < h" "h \<le> h'" "h' \<le> n" for h h'
    proof -
      have "h = h' \<or> (h = Suc m \<and> Suc m < h') \<or> Suc m < h" using that(1,2) by linarith
      then consider "h = h'" | "h = Suc m" "Suc m < h'" | "Suc m < h" by blast
      then show ?thesis
      proof cases
        case 1
        then show ?thesis by simp
      next
        case 2
        have "heap_key v base a 1 \<le> heap_key v base a h'"
          using 2 that by (intro below) simp_all
        then show ?thesis unfolding 2(1) ktop kout [OF 2(2) that(3)] .
      next
        case 3
        have h': "Suc m < h'" and hn: "h \<le> n" using 3 that by simp_all
        show ?thesis unfolding kout [OF 3 hn] kout [OF h' that(3)]
          using 3 that by (intro sorted) simp_all
      qed
    qed
    have len1: "base + n \<le> length a1" using len l1 by simp
    have mn1: "m \<le> n" using mn by simp
    from Suc.IH [OF len1 mn1 hp below1 sorted1]
    have q: "seg_perm base (base + n - 1) a1 (fold (heap_pop (<) v base) (rev [2..<Suc m]) a1)"
      and s: "\<forall>h h'. 1 \<le> h \<and> h \<le> h' \<and> h' \<le> n \<longrightarrow>
        heap_key v base (fold (heap_pop (<) v base) (rev [2..<Suc m]) a1) h
          \<le> heap_key v base (fold (heap_pop (<) v base) (rev [2..<Suc m]) a1) h'"
      by blast+
    have p': "seg_perm base (base + n - 1) a a1"
      using p by (rule seg_perm_mono) (use mn in \<open>simp_all add: top_def\<close>)
    have f: "fold (heap_pop (<) v base) (rev [2..<Suc (Suc m)]) a =
             fold (heap_pop (<) v base) (rev [2..<Suc m]) a1"
      using m2 by (simp add: a1_def)
    show ?thesis
      unfolding f using seg_perm_trans [OF p' q] s by simp
  qed
qed

lemma aheapsort_correct:
  fixes v :: "('k::linorder) list"
  assumes "1 \<le> n" and "base + n \<le> length a"
  shows "seg_perm base (base + n - 1) a (aheapsort (<) v a base n) \<and>
         seg_sorted v (aheapsort (<) v a base n) base (base + n - 1)"
proof -
  define a1 where "a1 = fold (heap_place (<) v base n) (rev [1..<Suc (n div 2)]) a"
  define b where "b = fold (heap_pop (<) v base) (rev [2..<Suc n]) a1"
  have e: "aheapsort (<) v a base n = b"
    by (simp add: aheapsort_def a1_def b_def)
  have leaf: "heap_node v base n a h" if "n div 2 < h" "h \<le> n" for h
  proof -
    have "\<not> 2 * h \<le> n" "\<not> 2 * h + 1 \<le> n" using that by auto
    then show ?thesis by (simp add: heap_node_def)
  qed
  have "n div 2 \<le> n" by simp
  from build_heap [OF assms(2) this leaf]
  have p1: "seg_perm base (base + n - 1) a a1"
    and h1: "\<And>h. 1 \<le> h \<Longrightarrow> h \<le> n \<Longrightarrow> heap_node v base n a1 h"
    by (simp_all add: a1_def)
  have l1: "base + n \<le> length a1" using p1 assms(2) by (simp add: seg_perm_def)
  from pop_phase [OF l1 order_refl h1]
  have p2: "seg_perm base (base + n - 1) a1 b"
    and s: "\<And>h h'. 1 \<le> h \<Longrightarrow> h \<le> h' \<Longrightarrow> h' \<le> n \<Longrightarrow> heap_key v base b h \<le> heap_key v base b h'"
    by (simp_all add: b_def)
  have "v ! (b ! i) \<le> v ! (b ! j)" if "base \<le> i" "i \<le> j" "j \<le> base + n - 1" for i j
  proof -
    have "heap_key v base b (i - base + 1) \<le> heap_key v base b (j - base + 1)"
      using that assms(1) by (intro s) auto
    then show ?thesis using that by (simp add: heap_key_def)
  qed
  then have "seg_sorted v b base (base + n - 1)" by (simp add: seg_sorted_def)
  then show ?thesis
    unfolding e using seg_perm_trans [OF p1 p2] by simp
qed

lemma parted_left:
  fixes v :: "('k::linorder) list"
  assumes "parted v a pl ip pr" and "seg_perm pl (ip - 1) a b" and "pl < ip" and "ip \<le> pr"
    and "pr < length a"
  shows "parted v b pl ip pr"
proof -
  have out: "b ! k = a ! k" if "ip \<le> k" "k \<le> pr" for k
    using assms(2,3,5) that by (simp add: seg_perm_def)
  have lo: "v ! (b ! k) \<le> v ! (a ! ip)" if "pl \<le> k" "k < ip" for k
  proof (rule seg_perm_all [OF assms(2), where P = "\<lambda>x. v ! x \<le> v ! (a ! ip)"])
    show "ip - 1 < length a" using assms(3,4,5) by simp
    show "pl \<le> k" "k \<le> ip - 1" using that by simp_all
    fix j assume "pl \<le> j" "j \<le> ip - 1"
    then show "v ! (a ! j) \<le> v ! (a ! ip)" using assms(1,3) by (simp add: parted_def)
  qed
  have e: "b ! ip = a ! ip" using assms(4) by (intro out) simp_all
  have "v ! (b ! k) \<le> v ! (b ! ip)" if "pl \<le> k" "k < ip" for k
    unfolding e using that by (rule lo)
  moreover have "v ! (b ! ip) \<le> v ! (b ! k)" if "ip < k" "k \<le> pr" for k
  proof -
    have "b ! k = a ! k" using that by (intro out) simp_all
    then show ?thesis unfolding e using assms(1) that by (simp add: parted_def)
  qed
  ultimately show ?thesis by (simp add: parted_def)
qed

lemma parted_right:
  fixes v :: "('k::linorder) list"
  assumes "parted v a pl ip pr" and "seg_perm (ip + 1) pr a b" and "pl \<le> ip" and "ip < pr"
    and "pr < length a"
  shows "parted v b pl ip pr"
proof -
  have out: "b ! k = a ! k" if "k \<le> ip" for k
    using assms(2,4,5) that by (simp add: seg_perm_def)
  have hi: "v ! (a ! ip) \<le> v ! (b ! k)" if "ip < k" "k \<le> pr" for k
  proof (rule seg_perm_all [OF assms(2), where P = "\<lambda>x. v ! (a ! ip) \<le> v ! x"])
    show "pr < length a" by (rule assms(5))
    show "ip + 1 \<le> k" "k \<le> pr" using that by simp_all
    fix j assume "ip + 1 \<le> j" "j \<le> pr"
    then show "v ! (a ! ip) \<le> v ! (a ! j)" using assms(1) by (simp add: parted_def)
  qed
  have e: "b ! ip = a ! ip" by (intro out) simp
  have "v ! (b ! ip) \<le> v ! (b ! k)" if "ip < k" "k \<le> pr" for k
    unfolding e using that by (rule hi)
  moreover have "v ! (b ! k) \<le> v ! (b ! ip)" if "pl \<le> k" "k < ip" for k
  proof -
    have "b ! k = a ! k" using that by (intro out) simp
    then show ?thesis unfolding e using assms(1) that by (simp add: parted_def)
  qed
  ultimately show ?thesis by (simp add: parted_def)
qed

lemma seg_sorted_outside:
  fixes v :: "('k::linorder) list"
  assumes "seg_sorted v a lo hi" and "seg_perm pl pr a b" and "hi < pl \<or> pr < lo" and "hi < length a"
  shows "seg_sorted v b lo hi"
proof -
  have "b ! k = a ! k" if "lo \<le> k" "k \<le> hi" for k
    using assms(2,3,4) that by (auto simp: seg_perm_def)
  then show ?thesis
    using assms(1) by (simp add: seg_sorted_def)
qed

lemma parted_sorted:
  fixes v :: "('k::linorder) list"
  assumes "parted v b pl ip pr" and "seg_sorted v b pl (ip - 1)" and "seg_sorted v b (ip + 1) pr"
    and "pl < ip"
  shows "seg_sorted v b pl pr"
  unfolding seg_sorted_def
proof (intro allI impI)
  fix i j assume ij: "pl \<le> i \<and> i \<le> j \<and> j \<le> pr"
  have lo: "v ! (b ! k) \<le> v ! (b ! ip)" if "pl \<le> k" "k < ip" for k
    using assms(1) that by (simp add: parted_def)
  have hi: "v ! (b ! ip) \<le> v ! (b ! k)" if "ip < k" "k \<le> pr" for k
    using assms(1) that by (simp add: parted_def)
  have "j < ip \<or> (i < ip \<and> j = ip) \<or> (i < ip \<and> ip < j) \<or> (i = ip \<and> j = ip) \<or> (i = ip \<and> ip < j) \<or> ip < i"
    using ij by linarith
  then consider "j < ip" | "i < ip" "j = ip" | "i < ip" "ip < j" | "i = ip" "j = ip"
    | "i = ip" "ip < j" | "ip < i" by blast
  then show "v ! (b ! i) \<le> v ! (b ! j)"
  proof cases
    case 1
    then show ?thesis using assms(2) ij by (simp add: seg_sorted_def)
  next
    case 2
    then show ?thesis using lo [of i] ij by simp
  next
    case 3
    have "v ! (b ! i) \<le> v ! (b ! ip)" using 3 ij by (intro lo) simp_all
    moreover have "v ! (b ! ip) \<le> v ! (b ! j)" using 3 ij by (intro hi) simp_all
    ultimately show ?thesis by simp
  next
    case 4
    then show ?thesis by simp
  next
    case 5
    then show ?thesis using hi [of j] ij by simp
  next
    case 6
    then show ?thesis using assms(3) ij by (simp add: seg_sorted_def)
  qed
qed

lemma sort_two_sides:
  fixes v :: "('k::linorder) list"
  assumes part: "parted v a pl ip pr" and b: "pl < ip" "ip < pr" "pr < length a"
    and first: "seg_perm l1 r1 a a1" "seg_sorted v a1 l1 r1"
    and second: "seg_perm l2 r2 a1 a2" "seg_sorted v a2 l2 r2"
    and sides: "(l1 = pl \<and> r1 = ip - 1 \<and> l2 = ip + 1 \<and> r2 = pr) \<or>
                (l1 = ip + 1 \<and> r1 = pr \<and> l2 = pl \<and> r2 = ip - 1)"
  shows "seg_perm pl pr a a2 \<and> seg_sorted v a2 pl pr"
proof -
  have len1: "length a1 = length a" using first(1) by (simp add: seg_perm_def)
  have len2: "length a2 = length a" using second(1) len1 by (simp add: seg_perm_def)
  have p1: "seg_perm pl pr a a1"
    using first(1) by (rule seg_perm_mono) (use sides b in auto)
  have p2: "seg_perm pl pr a1 a2"
    using second(1) by (rule seg_perm_mono) (use sides b in auto)
  have p: "seg_perm pl pr a a2" using p1 p2 by (rule seg_perm_trans)
  from sides show ?thesis
  proof
    assume s: "l1 = pl \<and> r1 = ip - 1 \<and> l2 = ip + 1 \<and> r2 = pr"
    have f1: "seg_perm pl (ip - 1) a a1" and f2: "seg_sorted v a1 pl (ip - 1)"
      and s1: "seg_perm (ip + 1) pr a1 a2" and s2: "seg_sorted v a2 (ip + 1) pr"
      using first second s by simp_all
    have ip: "ip \<le> pr" "pl \<le> ip" using b by simp_all
    have pr1: "pr < length a1" using b(3) len1 by simp
    have q1: "parted v a1 pl ip pr"
      by (rule parted_left [OF part f1 b(1) ip(1) b(3)])
    have q2: "parted v a2 pl ip pr"
      by (rule parted_right [OF q1 s1 ip(2) b(2) pr1])
    have "ip - 1 < ip + 1 \<or> pr < pl" by arith
    moreover have "ip - 1 < length a1" using pr1 b by simp
    ultimately have "seg_sorted v a2 pl (ip - 1)"
      by (rule seg_sorted_outside [OF f2 s1])
    then have "seg_sorted v a2 pl pr"
      by (rule parted_sorted [OF q2 _ s2 b(1)])
    then show ?thesis using p by simp
  next
    assume s: "l1 = ip + 1 \<and> r1 = pr \<and> l2 = pl \<and> r2 = ip - 1"
    have f1: "seg_perm (ip + 1) pr a a1" and f2: "seg_sorted v a1 (ip + 1) pr"
      and s1: "seg_perm pl (ip - 1) a1 a2" and s2: "seg_sorted v a2 pl (ip - 1)"
      using first second s by simp_all
    have ip: "ip \<le> pr" "pl \<le> ip" using b by simp_all
    have pr1: "pr < length a1" using b(3) len1 by simp
    have q1: "parted v a1 pl ip pr"
      by (rule parted_right [OF part f1 ip(2) b(2) b(3)])
    have q2: "parted v a2 pl ip pr"
      by (rule parted_left [OF q1 s1 b(1) ip(1) pr1])
    have "pr < pl \<or> ip - 1 < ip + 1" by arith
    then have "seg_sorted v a2 (ip + 1) pr"
      using pr1 by (rule seg_sorted_outside [OF f2 s1])
    then have "seg_sorted v a2 pl pr"
      by (rule parted_sorted [OF q2 s2 _ b(1)])
    then show ?thesis using p by simp
  qed
qed

lemma aquicksort_seg_correct:
  fixes v :: "('k::linorder) list"
  shows "pr < length a \<Longrightarrow>
         seg_perm pl pr a (aquicksort_seg (<) v a pl pr d) \<and>
         seg_sorted v (aquicksort_seg (<) v a pl pr d) pl pr"
proof (induction "pr - pl" arbitrary: a pl pr d rule: less_induct)
  case less
  show ?case
  proof (cases "16 < pr - pl")
    case False
    then have "aquicksort_seg (<) v a pl pr d = insertion_sort (<) v a pl pr"
      by (subst aquicksort_seg.simps) simp
    then show ?thesis using insertion_sort_correct [OF less.prems, of pl v] by simp
  next
    case True
    obtain a' ip where r: "qs_partition (<) v a pl pr = (a', ip)"
      by (cases "qs_partition (<) v a pl pr")
    from qs_partition_props [OF r True less.prems]
    have p0: "seg_perm pl pr a a'" and b: "pl < ip" "ip < pr"
      and part: "parted v a' pl ip pr"
      by (simp_all add: parted_def)
    have len: "length a' = length a" using p0 by (simp add: seg_perm_def)
    have pr': "pr < length a'" using less.prems len by simp
    define left where "left = (\<lambda>x dd. aquicksort_seg (<) v x pl (ip - 1) dd)"
    define right where "right = (\<lambda>x dd. aquicksort_seg (<) v x (ip + 1) pr dd)"
    have e: "aquicksort_seg (<) v a pl pr d =
       (if ip - pl < pr - ip then
          (if d - 1 < 0 then aheapsort (<) v (left a' (d - 1)) (ip + 1) (pr - ip)
           else right (left a' (d - 1)) (d - 1))
        else
          (if d - 1 < 0 then aheapsort (<) v (right a' (d - 1)) pl (ip - pl)
           else left (right a' (d - 1)) (d - 1)))"
      using True b unfolding left_def right_def
      by (subst aquicksort_seg.simps) (simp add: r Let_def)
    have L: "seg_perm pl (ip - 1) x (left x dd) \<and> seg_sorted v (left x dd) pl (ip - 1)"
      if "length x = length a" for x dd
    proof -
      have "ip - 1 - pl < pr - pl" "ip - 1 < length x" using b that less.prems by simp_all
      then show ?thesis unfolding left_def by (rule less.hyps)
    qed
    have R: "seg_perm (ip + 1) pr x (right x dd) \<and> seg_sorted v (right x dd) (ip + 1) pr"
      if "length x = length a" for x dd
    proof -
      have "pr - (ip + 1) < pr - pl" "pr < length x" using b that less.prems by simp_all
      then show ?thesis unfolding right_def by (rule less.hyps)
    qed
    have HR: "seg_perm (ip + 1) pr x (aheapsort (<) v x (ip + 1) (pr - ip)) \<and>
              seg_sorted v (aheapsort (<) v x (ip + 1) (pr - ip)) (ip + 1) pr"
      if "length x = length a" for x
    proof -
      have "1 \<le> pr - ip" "ip + 1 + (pr - ip) \<le> length x" using b that less.prems by simp_all
      from aheapsort_correct [OF this, of v] show ?thesis using b by simp
    qed
    have HL: "seg_perm pl (ip - 1) x (aheapsort (<) v x pl (ip - pl)) \<and>
              seg_sorted v (aheapsort (<) v x pl (ip - pl)) pl (ip - 1)"
      if "length x = length a" for x
    proof -
      have "1 \<le> ip - pl" "pl + (ip - pl) \<le> length x" using b that less.prems by simp_all
      from aheapsort_correct [OF this, of v] show ?thesis using b by simp
    qed
    have lenL: "length (left x dd) = length a" if "length x = length a" for x dd
      using L [OF that, of dd] that by (simp add: seg_perm_def)
    have lenR: "length (right x dd) = length a" if "length x = length a" for x dd
      using R [OF that, of dd] that by (simp add: seg_perm_def)
    have res: "seg_perm pl pr a' (aquicksort_seg (<) v a pl pr d) \<and>
               seg_sorted v (aquicksort_seg (<) v a pl pr d) pl pr"
    proof (cases "ip - pl < pr - ip")
      case lr: True
      show ?thesis
      proof (cases "d - 1 < 0")
        case True
        have e': "aquicksort_seg (<) v a pl pr d = aheapsort (<) v (left a' (d - 1)) (ip + 1) (pr - ip)"
          using lr True by (simp add: e)
        have x: "seg_perm pl (ip - 1) a' (left a' (d - 1))" "seg_sorted v (left a' (d - 1)) pl (ip - 1)"
          using L [OF len, of "d - 1"] by simp_all
        have y: "seg_perm (ip + 1) pr (left a' (d - 1)) (aheapsort (<) v (left a' (d - 1)) (ip + 1) (pr - ip))"
          "seg_sorted v (aheapsort (<) v (left a' (d - 1)) (ip + 1) (pr - ip)) (ip + 1) pr"
          using HR [OF lenL [OF len], of "d - 1"] by simp_all
        show ?thesis unfolding e'
          by (rule sort_two_sides [OF part b pr' x y]) simp
      next
        case False
        have e': "aquicksort_seg (<) v a pl pr d = right (left a' (d - 1)) (d - 1)"
          using lr False by (simp add: e)
        have x: "seg_perm pl (ip - 1) a' (left a' (d - 1))" "seg_sorted v (left a' (d - 1)) pl (ip - 1)"
          using L [OF len, of "d - 1"] by simp_all
        have y: "seg_perm (ip + 1) pr (left a' (d - 1)) (right (left a' (d - 1)) (d - 1))"
          "seg_sorted v (right (left a' (d - 1)) (d - 1)) (ip + 1) pr"
          using R [OF lenL [OF len], of "d - 1" "d - 1"] by simp_all
        show ?thesis unfolding e'
          by (rule sort_two_sides [OF part b pr' x y]) simp
      qed
    next
      case rl: False
      show ?thesis
      proof (cases "d - 1 < 0")
        case True
        have e': "aquicksort_seg (<) v a pl pr d = aheapsort (<) v (right a' (d - 1)) pl (ip - pl)"
          using rl True by (simp add: e)
        have x: "seg_perm (ip + 1) pr a' (right a' (d - 1))" "seg_sorted v (right a' (d - 1)) (ip + 1) pr"
          using R [OF len, of "d - 1"] by simp_all
        have y: "seg_perm pl (ip - 1) (right a' (d - 1)) (aheapsort (<) v (right a' (d - 1)) pl (ip - pl))"
          "seg_sorted v (aheapsort (<) v (right a' (d - 1)) pl (ip - pl)) pl (ip - 1)"
          using HL [OF lenR [OF len], of "d - 1"] by simp_all
        show ?thesis unfolding e'
          by (rule sort_two_sides [OF part b pr' x y]) simp
      next
        case False
        have e': "aquicksort_seg (<) v a pl pr d = left (right a' (d - 1)) (d - 1)"
          using rl False by (simp add: e)
        have x: "seg_perm (ip + 1) pr a' (right a' (d - 1))" "seg_sorted v (right a' (d - 1)) (ip + 1) pr"
          using R [OF len, of "d - 1"] by simp_all
        have y: "seg_perm pl (ip - 1) (right a' (d - 1)) (left (right a' (d - 1)) (d - 1))"
          "seg_sorted v (left (right a' (d - 1)) (d - 1)) pl (ip - 1)"
          using L [OF lenR [OF len], of "d - 1" "d - 1"] by simp_all
        show ?thesis unfolding e'
          by (rule sort_two_sides [OF part b pr' x y]) simp
      qed
    qed
    then show ?thesis using seg_perm_trans [OF p0] by blast
  qed
qed

lemma aquicksort_correct:
  fixes v :: "('k::linorder) list"
  shows "mset (aquicksort (<) v) = mset [0..<length v] \<and>
         sorted (map (\<lambda>j. v ! j) (aquicksort (<) v))"
proof (cases "v = []")
  case True
  then show ?thesis by (simp add: aquicksort_def)
next
  case False
  define b where "b = aquicksort_seg (<) v [0..<length v] 0 (length v - 1) (2 * int (npy_get_msb (length v)))"
  have e: "aquicksort (<) v = b" using False by (simp add: aquicksort_def b_def)
  have "length v - 1 < length [0..<length v]" using False by simp
  from aquicksort_seg_correct [OF this, of 0 v]
  have p: "seg_perm 0 (length v - 1) [0..<length v] b" and s: "seg_sorted v b 0 (length v - 1)"
    by (simp_all add: b_def)
  have l: "length b = length v" and m: "mset b = mset [0..<length v]"
    using p by (simp_all add: seg_perm_def)
  have "v ! (b ! i) \<le> v ! (b ! j)" if "i \<le> j" "j < length b" for i j
    using s that l by (simp add: seg_sorted_def)
  then have "sorted (map (\<lambda>j. v ! j) b)"
    by (simp add: sorted_iff_nth_mono)
  then show ?thesis unfolding e using m by simp
qed

lemma not_isna_TimeC: "\<not> isna (TimeC t)"
  by (simp add: isna_def)

lemma sort_values_timestamps:
  assumes "sorter (map TimeC us) = Inr p" and "list_all (\<lambda>j. j < length us) p"
  shows "sort_values sorter ''Date Time'' [(''Date Time'', map TimeC us), (''Power'', c2)] =
           Inr [(''Date Time'', map (\<lambda>j. TimeC (us ! j)) p), (''Power'', map (\<lambda>j. c2 ! j) p)]"
proof -
  let ?k = "map TimeC us"
  have f1: "filter (\<lambda>i. \<not> isna (?k ! i)) [0..<length us] = [0..<length us]"
    by (simp add: not_isna_TimeC cong: filter_cong)
  have f2: "filter (\<lambda>i. isna (?k ! i)) [0..<length us] = []"
    by (simp add: not_isna_TimeC cong: filter_cong)
  have m: "map (\<lambda>i. ?k ! i) [0..<length us] = ?k"
    by (intro nth_equalityI) simp_all
  have ix: "map (\<lambda>j. [0..<length us] ! j) p = p"
    using assms(2) by (induction p) simp_all
  have tk: "map (\<lambda>i. ?k ! i) p = map (\<lambda>j. TimeC (us ! j)) p"
    using assms(2) by (induction p) simp_all
  show ?thesis
    unfolding sort_values_def
    by (simp add: getitem_def then_do_def Let_def f1 f2 m assms ix take_rows_def tk)
qed

lemma tab_plot_parsed_sorted:
  assumes "is_table (table s)" and "\<not> empty_frame (table s)" and "sort_by_time inp"
    and "parse (map fst (rows (table s))) = Inr (map Some us)"
    and "sorter (map TimeC us) = Inr p" and "list_all (\<lambda>j. j < length us) p"
  shows "plotted (fst (tab_plot parse sorter raises inp s)) =
           build_chart raises inp
             [(''Date Time'', map (\<lambda>j. TimeC (us ! j)) p),
              (''Power'', map (\<lambda>j. map snd (rows (table s)) ! j) p)]"
proof -
  from assms(1) obtain c1 c2 where d: "table s = [(''Date Time'', c1), (''Power'', c2)]"
    and len: "length c1 = length c2"
    by (auto simp: is_table_iff)
  have r1: "map fst (rows (table s)) = c1" and r2: "map snd (rows (table s)) = c2"
    by (simp_all add: d rows_def column_or_nan_def len)
  let ?a = "fst (copy_frame (state_df s) s)"
  let ?s1 = "snd (copy_frame (state_df s) s)"
  have o1: "objects ?s1 ?a = [(''Date Time'', c1), (''Power'', c2)]"
    using d by (simp add: copy_frame_def new_object_def table_def)
  have ne: "\<not> empty_frame (objects ?s1 ?a)"
    using assms(2) by (simp add: o1 d)
  have g: "then_do (getitem (objects ?s1 ?a) ''Date Time'') parse = Inr (map Some us)"
    using assms(4) by (simp add: o1 getitem_def then_do_def r1)
  let ?s2 = "setitem ?a ''Date Time'' (map timestamp_cell (map Some us)) ?s1"
  have o2: "objects ?s2 ?a = [(''Date Time'', map TimeC us), (''Power'', c2)]"
    by (simp add: setitem_def o1 set_column_def timestamp_cell_def comp_def)
  have sv: "sort_values sorter ''Date Time'' (objects ?s2 ?a) =
              Inr [(''Date Time'', map (\<lambda>j. TimeC (us ! j)) p), (''Power'', map (\<lambda>j. c2 ! j) p)]"
    unfolding o2 by (rule sort_values_timestamps [of sorter us p c2, OF assms(5,6)])
  have pf: "plot_frame parse sorter inp ?a ?s1 =
              ((False, fresh ?s2),
               snd (new_object [(''Date Time'', map (\<lambda>j. TimeC (us ! j)) p),
                                (''Power'', map (\<lambda>j. c2 ! j) p)] ?s2))"
    using assms(3) by (simp add: plot_frame_def g sv new_object_def del: map_map)
  have "plotted (fst (tab_plot parse sorter raises inp s)) =
          build_chart raises inp
            (objects (snd (plot_frame parse sorter inp ?a ?s1)) (snd (fst (plot_frame parse sorter inp ?a ?s1))))"
    using ne by (simp add: tab_plot_def split_beta Let_def)
  also have "objects (snd (plot_frame parse sorter inp ?a ?s1)) (snd (fst (plot_frame parse sorter inp ?a ?s1))) =
               [(''Date Time'', map (\<lambda>j. TimeC (us ! j)) p), (''Power'', map (\<lambda>j. c2 ! j) p)]"
    unfolding pf by (simp add: new_object_def)
  finally show ?thesis by (simp add: r2)
qed

lemma build_chart_data:
  "build_chart raises inp d = Plotly_chart fig \<Longrightarrow> data fig = d"
  by (auto simp: build_chart_def split: option.splits)

lemma rows_two: "rows [(''Date Time'', c1), (''Power'', c2)] = zip c1 c2"
  by (simp add: rows_def column_or_nan_def)

lemma mset_permuted_rows:
  assumes "mset p = mset [0..<length xs]"
  shows "mset (map (\<lambda>j. xs ! j) p) = mset xs"
proof -
  have "mset (map (\<lambda>j. xs ! j) p) = image_mset (\<lambda>j. xs ! j) (mset p)" by simp
  also have "\<dots> = mset (map (\<lambda>j. xs ! j) [0..<length xs])" by (simp only: assms mset_map)
  also have "map (\<lambda>j. xs ! j) [0..<length xs] = xs" by (rule map_nth)
  finally show ?thesis .
qed

lemma np_argsort_times: "np_argsort (map TimeC us) = Inr (aquicksort (<) us)"
proof -
  have "list_all (\<lambda>k. cell_kind k = 2) (map TimeC us)"
    by (simp add: list_all_iff)
  moreover have "map cell_time (map TimeC us) = us"
    by (simp add: comp_def)
  ultimately show ?thesis by (simp add: np_argsort_def)
qed

text \<open>
  C3, as the code has it. For a non-empty table whose timestamps all parse (\<open>us\<close> holds
  the parsed timestamp of each row), with \<^verbatim>\<open>sort_by_time\<close> set, the frame the chart is
  built from holds the rows of the table, each parsed timestamp with its power, in the
  order of numpy's argsort: a permutation of the rows in which the timestamps are
  non-decreasing. Nothing is said about the order of rows with equal timestamps.
\<close>

theorem chart_sorted_by_time:
  assumes "is_table (table s)" and "\<not> empty_frame (table s)" and "sort_by_time inp"
    and "parse (map fst (rows (table s))) = Inr (map Some us)"
    and "length us = nrows (table s)"
  shows "plotted (fst (tab_plot parse np_argsort raises inp s)) =
           build_chart raises inp
             [(''Date Time'', map (\<lambda>j. TimeC (us ! j)) (aquicksort (<) us)),
              (''Power'', map (\<lambda>j. map snd (rows (table s)) ! j) (aquicksort (<) us))] \<and>
         mset (aquicksort (<) us) = mset [0..<nrows (table s)] \<and>
         sorted (map (\<lambda>j. us ! j) (aquicksort (<) us)) \<and>
         (\<forall>fig. plotted (fst (tab_plot parse np_argsort raises inp s)) = Plotly_chart fig \<longrightarrow>
            map fst (rows (data fig)) = map TimeC (map (\<lambda>j. us ! j) (aquicksort (<) us)) \<and>
            mset (rows (data fig)) = mset (zip (map TimeC us) (map snd (rows (table s)))))"
proof -
  define p where "p = aquicksort (<) us"
  let ?c2 = "map snd (rows (table s))"
  let ?F = "[(''Date Time'', map (\<lambda>j. TimeC (us ! j)) p), (''Power'', map (\<lambda>j. ?c2 ! j) p)]"
  have perm: "mset p = mset [0..<length us]" and srt: "sorted (map (\<lambda>j. us ! j) p)"
    using aquicksort_correct [of us] by (simp_all add: p_def)
  have sorter: "np_argsort (map TimeC us) = Inr p"
    unfolding p_def by (rule np_argsort_times)
  have "set p = set [0..<length us]"
    using perm by (rule mset_eq_setD)
  then have ix: "list_all (\<lambda>j. j < length us) p"
    by (simp add: list_all_iff)
  have a: "plotted (fst (tab_plot parse np_argsort raises inp s)) = build_chart raises inp ?F"
    by (rule tab_plot_parsed_sorted [where s=s and inp=inp and parse=parse and us=us
          and sorter=np_argsort and p=p, OF assms(1,2,3,4) sorter ix])
  have len: "length ?c2 = length us"
    using length_rows [OF assms(1)] assms(5) by simp
  have z: "zip (map (\<lambda>j. TimeC (us ! j)) p) (map (\<lambda>j. ?c2 ! j) p) =
             map (\<lambda>j. zip (map TimeC us) ?c2 ! j) p"
    using ix len by (induction p) simp_all
  have lz: "length (zip (map TimeC us) ?c2) = length us"
    using len by simp
  have m: "mset (rows ?F) = mset (zip (map TimeC us) ?c2)"
    unfolding rows_two z
    by (rule mset_permuted_rows) (simp only: lz perm)
  have f: "map fst (rows ?F) = map TimeC (map (\<lambda>j. us ! j) p)"
    unfolding rows_two by (simp add: comp_def)
  have b: "map fst (rows (data fig)) = map TimeC (map (\<lambda>j. us ! j) p) \<and>
           mset (rows (data fig)) = mset (zip (map TimeC us) ?c2)"
    if "plotted (fst (tab_plot parse np_argsort raises inp s)) = Plotly_chart fig" for fig
  proof -
    from that a have "build_chart raises inp ?F = Plotly_chart fig" by simp
    then have "data fig = ?F" by (rule build_chart_data)
    then show ?thesis using f m by simp
  qed
  have perm': "mset p = mset [0..<nrows (table s)]" using perm assms(5) by simp
  from a b perm' srt show ?thesis unfolding p_def by blast
qed

lemma aquicksort_three:
  "aquicksort (<) [20240309070500, 20240309070459, 20240309070500 :: int] = [1, 0, 2]"
  by code_simp

theorem chart_sorted_by_time_witness:
  "is_table (table (data_editor_writeback
      [(''Date Time'', [StrC ''2024-03-09 07:05:00'', StrC ''2024-03-09 07:04:59'', StrC ''2024-03-09 07:05:00'']),
       (''Power'', [IntC 50, IntC 40, IntC 30])] initial_session)) \<and>
   to_datetime_ymd_hms [StrC ''2024-03-09 07:05:00'', StrC ''2024-03-09 07:04:59'', StrC ''2024-03-09 07:05:00''] =
     Inr [Some 20240309070500, Some 20240309070459, Some 20240309070500] \<and>
   plotted (fst (tab_plot to_datetime_ymd_hms np_argsort px_never_raises default_inputs
     (data_editor_writeback
      [(''Date Time'', [StrC ''2024-03-09 07:05:00'', StrC ''2024-03-09 07:04:59'', StrC ''2024-03-09 07:05:00'']),
       (''Power'', [IntC 50, IntC 40, IntC 30])] initial_session))) =
   Plotly_chart
     \<lparr>kind = Line,
      data = [(''Date Time'', [TimeC 20240309070459, TimeC 20240309070500, TimeC 20240309070500]),
              (''Power'', [IntC 40, IntC 50, IntC 30])],
      markers = Some True, title = ''Power vs Date Time''\<rparr>"
proof -
  let ?d = "[(''Date Time'', [StrC ''2024-03-09 07:05:00'', StrC ''2024-03-09 07:04:59'', StrC ''2024-03-09 07:05:00'']),
       (''Power'', [IntC 50, IntC 40, IntC 30])]"
  let ?s = "data_editor_writeback ?d initial_session"
  let ?us = "[20240309070500, 20240309070459, 20240309070500 :: int]"
  have t: "table ?s = ?d" by (simp add: data_editor_writeback_def table_assign_df)
  have 1: "is_table (table ?s)" unfolding t by (simp add: is_table_def)
  have 2: "\<not> empty_frame (table ?s)" unfolding t by (simp add: empty_frame_def nrows_def)
  have 3: "sort_by_time default_inputs" by (simp add: default_inputs_def)
  have pe: "to_datetime_ymd_hms [StrC ''2024-03-09 07:05:00'', StrC ''2024-03-09 07:04:59'', StrC ''2024-03-09 07:05:00''] =
     Inr [Some 20240309070500, Some 20240309070459, Some 20240309070500]"
    by (simp add: then_do_def parse_example parse_example2)
  have 4: "to_datetime_ymd_hms (map fst (rows (table ?s))) = Inr (map Some ?us)"
    unfolding t rows_two using pe by simp
  have 5: "length ?us = nrows (table ?s)" unfolding t by (simp add: nrows_def)
  from chart_sorted_by_time [where raises = px_never_raises and s = ?s and inp = default_inputs
      and parse = to_datetime_ymd_hms and us = ?us, OF 1 2 3 4 5]
  have "plotted (fst (tab_plot to_datetime_ymd_hms np_argsort px_never_raises default_inputs ?s)) =
          build_chart px_never_raises default_inputs
            [(''Date Time'', map (\<lambda>j. TimeC (?us ! j)) (aquicksort (<) ?us)),
             (''Power'', map (\<lambda>j. map snd (rows (table ?s)) ! j) (aquicksort (<) ?us))]"
    by blast
  also have "\<dots> = Plotly_chart
     \<lparr>kind = Line,
      data = [(''Date Time'', [TimeC 20240309070459, TimeC 20240309070500, TimeC 20240309070500]),
              (''Power'', [IntC 40, IntC 50, IntC 30])],
      markers = Some True, title = ''Power vs Date Time''\<rparr>"
    unfolding t rows_two aquicksort_three
    by (simp add: build_chart_def px_never_raises_def default_inputs_def)
  finally show ?thesis using 1 pe by simp
qed

lemma to_datetime_replicate:
  "to_datetime_ymd_hms (replicate n (StrC ''2024-03-09 07:05:00'')) =
     Inr (replicate n (Some 20240309070500))"
  by (induction n) (simp_all add: then_do_def parse_example)

lemma argsort_eighteen:
  "np_argsort (replicate 18 (TimeC 20240309070500)) = Inr [0, 15, 14, 13, 12, 11, 10, 9, 8, 7, 6, 5, 4, 3, 2, 1, 16, 17]"
  by code_simp

text \<open>
  C3 as stated fails for the order of equal timestamps: \<^verbatim>\<open>sort_values\<close> is called with
  its default \<^verbatim>\<open>kind="quicksort"\<close>, which is not stable. Eighteen rows with one and the
  same timestamp and the powers 0 to 17 are plotted in the order 0, 15, 14, ..., 1, 16,
  17: the partition step of the introsort exchanges them.
\<close>

theorem chart_sort_unstable_counterexample:
  "to_datetime_ymd_hms (map fst (rows (table (data_editor_writeback
        [(''Date Time'', replicate 18 (StrC ''2024-03-09 07:05:00'')),
         (''Power'', map IntC [0, 1, 2, 3, 4, 5, 6, 7, 8, 9, 10, 11, 12, 13, 14, 15, 16, 17])] initial_session)))) =
     Inr (replicate 18 (Some 20240309070500)) \<and>
   map snd (rows (table (data_editor_writeback
        [(''Date Time'', replicate 18 (StrC ''2024-03-09 07:05:00'')),
         (''Power'', map IntC [0, 1, 2, 3, 4, 5, 6, 7, 8, 9, 10, 11, 12, 13, 14, 15, 16, 17])] initial_session))) = map IntC [0, 1, 2, 3, 4, 5, 6, 7, 8, 9, 10, 11, 12, 13, 14, 15, 16, 17] \<and>
   plotted (fst (tab_plot to_datetime_ymd_hms np_argsort px_never_raises default_inputs (data_editor_writeback
        [(''Date Time'', replicate 18 (StrC ''2024-03-09 07:05:00'')),
         (''Power'', map IntC [0, 1, 2, 3, 4, 5, 6, 7, 8, 9, 10, 11, 12, 13, 14, 15, 16, 17])] initial_session))) =
     Plotly_chart
       \<lparr>kind = Line,
        data = [(''Date Time'', replicate 18 (TimeC 20240309070500)),
                (''Power'', map IntC [0, 15, 14, 13, 12, 11, 10, 9, 8, 7, 6, 5, 4, 3, 2, 1, 16, 17])],
        markers = Some True, title = ''Power vs Date Time''\<rparr> \<and>
   map IntC [0, 15, 14, 13, 12, 11, 10, 9, 8, 7, 6, 5, 4, 3, 2, 1, 16, 17] \<noteq> map IntC [0, 1, 2, 3, 4, 5, 6, 7, 8, 9, 10, 11, 12, 13, 14, 15, 16, 17]"
proof -
  let ?c2 = "map IntC [0, 1, 2, 3, 4, 5, 6, 7, 8, 9, 10, 11, 12, 13, 14, 15, 16, 17]"
  let ?d = "[(''Date Time'', replicate 18 (StrC ''2024-03-09 07:05:00'')),
         (''Power'', map IntC [0, 1, 2, 3, 4, 5, 6, 7, 8, 9, 10, 11, 12, 13, 14, 15, 16, 17])]"
  let ?s = "data_editor_writeback ?d initial_session"
  let ?us = "replicate 18 (20240309070500 :: int)"
  let ?p = "[0, 15, 14, 13, 12, 11, 10, 9, 8, 7, 6, 5, 4, 3, 2, 1, 16, 17] :: nat list"
  have t: "table ?s = ?d" by (simp add: data_editor_writeback_def table_assign_df)
  have 1: "is_table (table ?s)" unfolding t by (simp add: is_table_def)
  have 2: "\<not> empty_frame (table ?s)" unfolding t by (simp add: empty_frame_def nrows_def)
  have 3: "sort_by_time default_inputs" by (simp add: default_inputs_def)
  have f: "map fst (rows (table ?s)) = replicate 18 (StrC ''2024-03-09 07:05:00'')"
    unfolding t rows_two by (rule map_fst_zip) simp
  have g: "map snd (rows (table ?s)) = ?c2"
    unfolding t rows_two by (rule map_snd_zip) simp
  have 4: "to_datetime_ymd_hms (map fst (rows (table ?s))) = Inr (map Some ?us)"
    unfolding f by (simp add: to_datetime_replicate)
  have 6: "np_argsort (map TimeC ?us) = Inr ?p"
    using argsort_eighteen by simp
  have 7: "list_all (\<lambda>j. j < length ?us) ?p" by simp
  have "plotted (fst (tab_plot to_datetime_ymd_hms np_argsort px_never_raises default_inputs ?s)) =
          build_chart px_never_raises default_inputs
            [(''Date Time'', map (\<lambda>j. TimeC (?us ! j)) ?p),
             (''Power'', map (\<lambda>j. map snd (rows (table ?s)) ! j) ?p)]"
    by (rule tab_plot_parsed_sorted [where s = ?s and inp = default_inputs
          and parse = to_datetime_ymd_hms and us = ?us and sorter = np_argsort and p = ?p,
          OF 1 2 3 4 6 7])
  also have "\<dots> = Plotly_chart
       \<lparr>kind = Line,
        data = [(''Date Time'', replicate 18 (TimeC 20240309070500)),
                (''Power'', map IntC [0, 15, 14, 13, 12, 11, 10, 9, 8, 7, 6, 5, 4, 3, 2, 1, 16, 17])],
        markers = Some True, title = ''Power vs Date Time''\<rparr>"
    unfolding g by code_simp
  finally have c: "plotted (fst (tab_plot to_datetime_ymd_hms np_argsort px_never_raises default_inputs ?s)) =
      Plotly_chart
       \<lparr>kind = Line,
        data = [(''Date Time'', replicate 18 (TimeC 20240309070500)),
                (''Power'', map IntC [0, 15, 14, 13, 12, 11, 10, 9, 8, 7, 6, 5, 4, 3, 2, 1, 16, 17])],
        markers = Some True, title = ''Power vs Date Time''\<rparr>" .
  have p4: "to_datetime_ymd_hms (map fst (rows (table ?s))) = Inr (replicate 18 (Some 20240309070500))"
    using 4 by simp
  have n: "map IntC [0, 15, 14, 13, 12, 11, 10, 9, 8, 7, 6, 5, 4, 3, 2, 1, 16, 17] \<noteq> map IntC [0, 1, 2, 3, 4, 5, 6, 7, 8, 9, 10, 11, 12, 13, 14, 15, 16, 17]" by simp
  show ?thesis
    by (rule conjI [OF p4 conjI [OF g conjI [OF c n]]])
qed

end
